theory Spec2Isabelle
  imports Complex_Main "HOL-Library.Word" "HOL-Library.Multiset"
begin

unbundle bit_operations_syntax

section \<open>Common types\<close>

text \<open>
  Go's \<^verbatim>\<open>uint\<close> is taken at 64 bits (the 64-bit platforms), \<^verbatim>\<open>uint32\<close> and
  \<^verbatim>\<open>uint64\<close> are words of their width, \<^verbatim>\<open>int\<close> is an integer. A byte slice or a Go
  string is a \<^typ>\<open>string\<close>: a list of 8-bit characters.

  Every run-time panic of the source is a value of \<open>error\<close>. Two further errors,
  \<open>ConfigurationError\<close> and \<open>ShapeMismatchError\<close>, are the ones the specification names;
  no function of the source produces them.
\<close>

type_synonym u32 = "32 word"
type_synonym u64 = "64 word"

datatype error =
    DivideByZero
  | IndexOutOfRange
  | SliceBoundsOutOfRange
  | MakeSliceOutOfRange
  | NilDereference
  | ConfigurationError
  | ShapeMismatchError

text \<open>
  The hash functions come from the external library murmur3
  (\<^verbatim>\<open>Sum64WithSeed\<close>, \<^verbatim>\<open>Sum32WithSeed\<close>). They are parameters of every definition
  that hashes: all that is used of them is that they are functions of the data and the seed.
\<close>

type_synonym hash64 = "string \<Rightarrow> u32 \<Rightarrow> u64"
type_synonym hash32 = "string \<Rightarrow> u32 \<Rightarrow> u32"

section \<open>Count-Min Sketch (chapter09/bloomfilter.go, second program)\<close>

record CountMinSketch =
  matrix :: "u32 list list"
  width :: u64
  depth :: u64

text \<open>
  \<^verbatim>\<open>NewCountMinSketch(epsilon, delta)\<close> computes \<open>width\<close> and \<open>depth\<close> in floating point
  (\<^verbatim>\<open>uint(math.Ceil(math.E / epsilon))\<close>, \<^verbatim>\<open>uint(math.Ceil(math.Log(1 / delta)))\<close>)
  and then allocates a zeroed \<open>depth\<close> by \<open>width\<close> matrix. The embedding starts from
  the two computed dimensions.
\<close>

definition NewCountMinSketch :: "u64 \<Rightarrow> u64 \<Rightarrow> CountMinSketch" where
  "NewCountMinSketch w d =
     \<lparr>matrix = replicate (unat d) (replicate (unat w) 0), width = w, depth = d\<rparr>"

text \<open>
  \<^verbatim>\<open>hash % uint64(cms.width)\<close> panics with an integer division by zero when the width
  is 0. \<^verbatim>\<open>uint32(hashNum)\<close> truncates the row number to the seed.
\<close>

definition cms_getPosition :: "hash64 \<Rightarrow> CountMinSketch \<Rightarrow> string \<Rightarrow> u64 \<Rightarrow> error + u64" where
  "cms_getPosition h cms data hashNum =
     (if width cms = 0 then Inl DivideByZero
      else Inr (h data (ucast hashNum) mod width cms))"

text \<open>
  The loop of \<^verbatim>\<open>Increment\<close>, from row \<open>i\<close> on. The result is the sketch as the call
  leaves it, and the panic that stopped it, if any. \<^verbatim>\<open>+=\<close> on \<^verbatim>\<open>uint32\<close> wraps.
\<close>

function Increment_loop ::
  "hash64 \<Rightarrow> string \<Rightarrow> u32 \<Rightarrow> nat \<Rightarrow> CountMinSketch \<Rightarrow> CountMinSketch \<times> error option" where
  "Increment_loop h data cnt i cms =
     (if i < unat (depth cms) then
        (case cms_getPosition h cms data (word_of_nat i) of
           Inl e \<Rightarrow> (cms, Some e)
         | Inr position \<Rightarrow>
             if i < length (matrix cms) \<and> unat position < length (matrix cms ! i)
             then Increment_loop h data cnt (Suc i)
                    (cms\<lparr>matrix := (matrix cms)
                       [i := (matrix cms ! i)
                          [unat position := matrix cms ! i ! unat position + cnt]]\<rparr>)
             else (cms, Some IndexOutOfRange))
      else (cms, None))"
  by pat_completeness auto
termination
  by (relation "measure (\<lambda>(h, data, cnt, i, cms). unat (depth cms) - i)") auto

declare Increment_loop.simps [simp del]

definition Increment ::
  "hash64 \<Rightarrow> CountMinSketch \<Rightarrow> string \<Rightarrow> u32 \<Rightarrow> CountMinSketch \<times> error option" where
  "Increment h cms data cnt = Increment_loop h data cnt 0 cms"

text \<open>The loop of \<^verbatim>\<open>Count\<close>, from row \<open>i\<close> on, with the running minimum.\<close>

function Count_loop ::
  "hash64 \<Rightarrow> CountMinSketch \<Rightarrow> string \<Rightarrow> nat \<Rightarrow> u32 \<Rightarrow> error + u32" where
  "Count_loop h cms data i mn =
     (if i < unat (depth cms) then
        (case cms_getPosition h cms data (word_of_nat i) of
           Inl e \<Rightarrow> Inl e
         | Inr position \<Rightarrow>
             if i < length (matrix cms) \<and> unat position < length (matrix cms ! i)
             then Count_loop h cms data (Suc i)
                    (if matrix cms ! i ! unat position < mn
                     then matrix cms ! i ! unat position else mn)
             else Inl IndexOutOfRange)
      else Inr mn)"
  by pat_completeness auto
termination
  by (relation "measure (\<lambda>(h, cms, data, i, mn). unat (depth cms) - i)") auto

declare Count_loop.simps [simp del]

definition Count :: "hash64 \<Rightarrow> CountMinSketch \<Rightarrow> string \<Rightarrow> error + u32" where
  "Count h cms data = Count_loop h cms data 0 (- 1)"

text \<open>
  A client that calls \<^verbatim>\<open>Increment\<close> for each (item, count) of a list, and stops at the
  first panic.
\<close>

fun IncrementAll ::
  "hash64 \<Rightarrow> CountMinSketch \<Rightarrow> (string \<times> u32) list \<Rightarrow> CountMinSketch \<times> error option" where
  "IncrementAll h cms [] = (cms, None)"
| "IncrementAll h cms ((data, cnt) # ops) =
     (case Increment h cms data cnt of
        (cms', None) \<Rightarrow> IncrementAll h cms' ops
      | (cms', Some e) \<Rightarrow> (cms', Some e))"

text \<open>The true total added for an item: the sum of the counts of its calls.\<close>

fun true_count :: "string \<Rightarrow> (string \<times> u32) list \<Rightarrow> nat" where
  "true_count x [] = 0"
| "true_count x ((data, cnt) # ops) =
     (if data = x then unat cnt else 0) + true_count x ops"

fun total_count :: "(string \<times> u32) list \<Rightarrow> nat" where
  "total_count [] = 0"
| "total_count ((data, cnt) # ops) = unat cnt + total_count ops"

text \<open>
  Auxiliary notions for the proofs. A sketch is well formed when its matrix has \<open>depth\<close>
  rows of \<open>width\<close> cells, as \<^verbatim>\<open>NewCountMinSketch\<close> builds it. \<open>cms_pos\<close> is the column
  \<^verbatim>\<open>getPosition\<close> computes for an item in row \<open>r\<close> of a sketch of width \<open>w\<close>, and
  \<open>hits\<close> the total of the counts that a list of calls adds to the cell at row \<open>r\<close>,
  column \<open>c\<close>.
\<close>

definition cms_wf :: "CountMinSketch \<Rightarrow> bool" where
  "cms_wf cms \<longleftrightarrow> length (matrix cms) = unat (depth cms) \<and>
     (\<forall>i < length (matrix cms). length (matrix cms ! i) = unat (width cms))"

definition cms_pos :: "hash64 \<Rightarrow> u64 \<Rightarrow> string \<Rightarrow> nat \<Rightarrow> nat" where
  "cms_pos h w data r = unat (h data (ucast (word_of_nat r :: u64)) mod w)"

fun hits :: "hash64 \<Rightarrow> u64 \<Rightarrow> nat \<Rightarrow> nat \<Rightarrow> (string \<times> u32) list \<Rightarrow> nat" where
  "hits h w r c [] = 0"
| "hits h w r c ((data, cnt) # ops) =
     (if c = cms_pos h w data r then unat cnt else 0) + hits h w r c ops"

section \<open>Bloom filter (chapter09/bloomfilter.go, first program)\<close>

text \<open>
  The fields \<^verbatim>\<open>size\<close> and \<^verbatim>\<open>k\<close> of the Go struct are \<open>bf_size\<close> and \<open>bf_k\<close> here.
\<close>

record BloomFilter =
  bitset :: "u64 list"
  bf_size :: u64
  bf_k :: u64

text \<open>
  \<^verbatim>\<open>NewBloomFilter\<close> calls \<^verbatim>\<open>optimalBitSize\<close> and \<^verbatim>\<open>optimalHashCount\<close>, which compute in
  \<^verbatim>\<open>float64\<close>, and allocates \<open>(size + 63) / 64\<close> zeroed words (\<^verbatim>\<open>uint\<close> arithmetic, which
  wraps). The two helpers are parameters of the embedding. The Go function has one return
  path and no error result: every value of the embedding is an \<open>Inr\<close>. (The quotient is
  below \<open>2 ^ 58\<close>, so \<^verbatim>\<open>make\<close> never sees a length outside \<^verbatim>\<open>int\<close>; running out of memory
  is outside the embedding.)
\<close>

definition NewBloomFilter ::
  "(int \<Rightarrow> real \<Rightarrow> u64) \<Rightarrow> (u64 \<Rightarrow> int \<Rightarrow> u64) \<Rightarrow> int \<Rightarrow> real \<Rightarrow> error + BloomFilter" where
  "NewBloomFilter optBitSize optHashCount expectedElements falsePositiveRate =
     Inr \<lparr>bitset =
            replicate (unat ((optBitSize expectedElements falsePositiveRate + 63) div 64)) 0,
          bf_size = optBitSize expectedElements falsePositiveRate,
          bf_k = optHashCount (optBitSize expectedElements falsePositiveRate) expectedElements\<rparr>"

text \<open>
  The two helpers with \<^verbatim>\<open>float64\<close> read as \<^typ>\<open>real\<close>:
  \<^verbatim>\<open>uint(math.Ceil(-float64(n) * math.Log(p) / math.Pow(math.Log(2), 2)))\<close> and
  \<^verbatim>\<open>uint(math.Max(1, math.Round(float64(size)/float64(n)*math.Log(2))))\<close>. Rounding, NaN,
  infinities and conversions out of range are not modelled, so the two definitions stand
  for the source only where its arithmetic is exact. They are used at one input,
  \<open>n = 1\<close> and \<open>p = 1\<close> (there \<^verbatim>\<open>math.Log(1)\<close> is 0 and every step is exact); the theorems
  about the filter hold for every pair of helpers.
\<close>

definition optimalBitSize :: "int \<Rightarrow> real \<Rightarrow> u64" where
  "optimalBitSize n p = word_of_int \<lceil>- real_of_int n * ln p / (ln 2) ^ 2\<rceil>"

definition optimalHashCount :: "u64 \<Rightarrow> int \<Rightarrow> u64" where
  "optimalHashCount sz n =
     word_of_int (max 1 (round (real (unat sz) / real_of_int n * ln 2)))"

text \<open>\<^verbatim>\<open>hash % uint64(bf.size)\<close> panics when the size is 0.\<close>

definition bf_getPosition :: "hash64 \<Rightarrow> BloomFilter \<Rightarrow> string \<Rightarrow> u64 \<Rightarrow> error + u64" where
  "bf_getPosition h bf data hashNum =
     (if bf_size bf = 0 then Inl DivideByZero
      else Inr (h data (ucast hashNum) mod bf_size bf))"

text \<open>
  The loop of \<^verbatim>\<open>Add\<close>, from hash number \<open>i\<close> on: the filter as the call leaves it, and
  the panic that stopped it, if any. \<^verbatim>\<open>1 << bit\<close> is a \<^verbatim>\<open>uint64\<close>.
\<close>

function Add_loop ::
  "hash64 \<Rightarrow> string \<Rightarrow> nat \<Rightarrow> BloomFilter \<Rightarrow> BloomFilter \<times> error option" where
  "Add_loop h data i bf =
     (if i < unat (bf_k bf) then
        (case bf_getPosition h bf data (word_of_nat i) of
           Inl e \<Rightarrow> (bf, Some e)
         | Inr position \<Rightarrow>
             if unat (position div 64) < length (bitset bf)
             then Add_loop h data (Suc i)
                    (bf\<lparr>bitset := (bitset bf)
                       [unat (position div 64) :=
                          bitset bf ! unat (position div 64) OR
                            push_bit (unat (position mod 64)) 1]\<rparr>)
             else (bf, Some IndexOutOfRange))
      else (bf, None))"
  by pat_completeness auto
termination
  by (relation "measure (\<lambda>(h, data, i, bf). unat (bf_k bf) - i)") auto

declare Add_loop.simps [simp del]

definition Add :: "hash64 \<Rightarrow> BloomFilter \<Rightarrow> string \<Rightarrow> BloomFilter \<times> error option" where
  "Add h bf data = Add_loop h data 0 bf"

text \<open>
  The loop of \<^verbatim>\<open>Contains\<close>. The method assigns to nothing, so its embedding returns
  the answer (or the panic) only.
\<close>

function Contains_loop :: "hash64 \<Rightarrow> BloomFilter \<Rightarrow> string \<Rightarrow> nat \<Rightarrow> error + bool" where
  "Contains_loop h bf data i =
     (if i < unat (bf_k bf) then
        (case bf_getPosition h bf data (word_of_nat i) of
           Inl e \<Rightarrow> Inl e
         | Inr position \<Rightarrow>
             if unat (position div 64) < length (bitset bf)
             then (if bitset bf ! unat (position div 64) AND
                        push_bit (unat (position mod 64)) 1 = 0
                   then Inr False
                   else Contains_loop h bf data (Suc i))
             else Inl IndexOutOfRange)
      else Inr True)"
  by pat_completeness auto
termination
  by (relation "measure (\<lambda>(h, bf, data, i). unat (bf_k bf) - i)") auto

declare Contains_loop.simps [simp del]

definition Contains :: "hash64 \<Rightarrow> BloomFilter \<Rightarrow> string \<Rightarrow> error + bool" where
  "Contains h bf data = Contains_loop h bf data 0"

text \<open>A client that adds the items of a list in turn and stops at the first panic.\<close>

fun AddAll :: "hash64 \<Rightarrow> BloomFilter \<Rightarrow> string list \<Rightarrow> BloomFilter \<times> error option" where
  "AddAll h bf [] = (bf, None)"
| "AddAll h bf (data # items) =
     (case Add h bf data of
        (bf', None) \<Rightarrow> AddAll h bf' items
      | (bf', Some e) \<Rightarrow> (bf', Some e))"

text \<open>
  The calls a client can make on a filter, and the filter after a sequence of them. A call
  of \<^verbatim>\<open>Add\<close> leaves the filter as \<open>Add\<close> returns it (also when it panics); a call of
  \<^verbatim>\<open>Contains\<close> leaves it as it is.
\<close>

datatype bf_call = CallAdd string | CallContains string

fun is_CallAdd :: "bf_call \<Rightarrow> bool" where
  "is_CallAdd (CallAdd data) = True"
| "is_CallAdd (CallContains data) = False"

fun bf_run :: "hash64 \<Rightarrow> BloomFilter \<Rightarrow> bf_call list \<Rightarrow> BloomFilter" where
  "bf_run h bf [] = bf"
| "bf_run h bf (CallAdd data # calls) = bf_run h (fst (Add h bf data)) calls"
| "bf_run h bf (CallContains data # calls) = bf_run h bf calls"

text \<open>
  Auxiliary notions for the proofs: the bit position of an item for hash number \<open>j\<close> in a
  filter of size \<open>sz\<close>, and whether bit \<open>p\<close> of a bit set is set.
\<close>

definition bf_pos :: "hash64 \<Rightarrow> u64 \<Rightarrow> string \<Rightarrow> nat \<Rightarrow> u64" where
  "bf_pos h sz data j = h data (ucast (word_of_nat j :: u64)) mod sz"

definition bit_set :: "u64 list \<Rightarrow> u64 \<Rightarrow> bool" where
  "bit_set bs p \<longleftrightarrow> unat (p div 64) < length bs \<and> bit (bs ! unat (p div 64)) (unat (p mod 64))"

text \<open>
  A filter in which \<^verbatim>\<open>Add\<close> and \<^verbatim>\<open>Contains\<close> cannot panic: the size is not 0 and every
  position below it has its word in the bit set.
\<close>

definition bf_wf :: "BloomFilter \<Rightarrow> bool" where
  "bf_wf bf \<longleftrightarrow> bf_size bf \<noteq> 0 \<and> unat (bf_size bf) \<le> 64 * length (bitset bf)"

section \<open>MinHash (the MinHash and LSH program)\<close>

record MinHash =
  numHashes :: int
  seeds :: "u32 list"

text \<open>
  \<^verbatim>\<open>make([]uint32, numHashes)\<close> panics when \<open>numHashes\<close> is negative. The seed of hash
  function \<open>i\<close> is \<^verbatim>\<open>uint32(i + 1)\<close>.
\<close>

definition NewMinHash :: "int \<Rightarrow> error + MinHash" where
  "NewMinHash n =
     (if n < 0 then Inl MakeSliceOutOfRange
      else Inr \<lparr>numHashes = n, seeds = map (\<lambda>i. word_of_nat (i + 1)) [0..<nat n]\<rparr>)"

text \<open>
  \<^verbatim>\<open>Signature\<close>: the inner loop over the seeds (from index \<open>i\<close> on) for one string, and the
  outer loop over the strings. \<^verbatim>\<open>signature[i]\<close> panics when \<open>i\<close> is not below the length
  of the signature.
\<close>

fun Signature_seeds :: "hash32 \<Rightarrow> string \<Rightarrow> u32 list \<Rightarrow> nat \<Rightarrow> u32 list \<Rightarrow> error + u32 list" where
  "Signature_seeds h s [] i signature = Inr signature"
| "Signature_seeds h s (seed # rest) i signature =
     (if i < length signature
      then Signature_seeds h s rest (Suc i)
             (if h s seed < signature ! i then signature[i := h s seed] else signature)
      else Inl IndexOutOfRange)"

fun Signature_strings :: "hash32 \<Rightarrow> u32 list \<Rightarrow> string list \<Rightarrow> u32 list \<Rightarrow> error + u32 list" where
  "Signature_strings h sds [] signature = Inr signature"
| "Signature_strings h sds (s # rest) signature =
     (case Signature_seeds h s sds 0 signature of
        Inl e \<Rightarrow> Inl e
      | Inr signature' \<Rightarrow> Signature_strings h sds rest signature')"

definition Signature :: "hash32 \<Rightarrow> MinHash \<Rightarrow> string list \<Rightarrow> error + u32 list" where
  "Signature h mh strings =
     (if numHashes mh < 0 then Inl MakeSliceOutOfRange
      else Signature_strings h (seeds mh) strings (replicate (nat (numHashes mh)) (- 1)))"

text \<open>
  A \<^verbatim>\<open>float64\<close> result is a real number or NaN. Rounding is not modelled: the quotient of
  two integers stands for the \<^verbatim>\<open>float64\<close> nearest to it.
\<close>

datatype float64 = Num real | NaN

text \<open>
  \<^verbatim>\<open>Similarity\<close>: the loop that counts the equal positions, and the function. It has no
  error result: every value of the embedding is an \<open>Inr\<close>. With \<open>numHashes = 0\<close> and two
  empty signatures the quotient is \<open>0.0 / 0.0\<close>, NaN.
\<close>

function matches_loop :: "u32 list \<Rightarrow> u32 list \<Rightarrow> nat \<Rightarrow> nat \<Rightarrow> nat \<Rightarrow> nat" where
  "matches_loop sig1 sig2 n i matches =
     (if i < n
      then matches_loop sig1 sig2 n (Suc i) (if sig1 ! i = sig2 ! i then Suc matches else matches)
      else matches)"
  by pat_completeness auto
termination
  by (relation "measure (\<lambda>(sig1, sig2, n, i, matches). n - i)") auto

declare matches_loop.simps [simp del]

definition Similarity :: "MinHash \<Rightarrow> u32 list \<Rightarrow> u32 list \<Rightarrow> error + float64" where
  "Similarity mh sig1 sig2 =
     (if int (length sig1) \<noteq> numHashes mh \<or> int (length sig2) \<noteq> numHashes mh
      then Inr (Num 0)
      else if numHashes mh = 0 then Inr NaN
      else Inr (Num (real (matches_loop sig1 sig2 (nat (numHashes mh)) 0 0) /
                     real_of_int (numHashes mh))))"

section \<open>Log analyzer: the top paths (the log analyzer program)\<close>

text \<open>The local struct \<^verbatim>\<open>PathCount\<close> of \<^verbatim>\<open>GetTopPaths\<close>.\<close>

record PathCount =
  pc_Path :: string
  pc_Count :: u64

text \<open>
  The sort of \<^verbatim>\<open>GetTopPaths\<close> is written out in the source as two nested loops that
  exchange \<open>pathCounts[i]\<close> and \<open>pathCounts[j]\<close> whenever the count at \<open>i\<close> is smaller.
  \<open>sort_inner\<close> is the loop over \<open>j\<close>, \<open>sort_outer\<close> the loop over \<open>i\<close>. All indices
  are below the length by the loop conditions.
\<close>

function sort_inner :: "nat \<Rightarrow> nat \<Rightarrow> PathCount list \<Rightarrow> PathCount list" where
  "sort_inner i j pathCounts =
     (if j < length pathCounts
      then sort_inner i (Suc j)
             (if pc_Count (pathCounts ! i) < pc_Count (pathCounts ! j)
              then pathCounts[i := pathCounts ! j, j := pathCounts ! i]
              else pathCounts)
      else pathCounts)"
  by pat_completeness auto
termination
  by (relation "measure (\<lambda>(i, j, pathCounts). length pathCounts - j)") auto

declare sort_inner.simps [simp del]

text \<open>The inner loop keeps the length, which the termination of the outer loop needs.\<close>

lemma length_sort_inner: "length (sort_inner i j pathCounts) = length pathCounts"
  by (induction i j pathCounts rule: sort_inner.induct) (subst sort_inner.simps, simp)

function sort_outer :: "nat \<Rightarrow> PathCount list \<Rightarrow> PathCount list" where
  "sort_outer i pathCounts =
     (if i < length pathCounts
      then sort_outer (Suc i) (sort_inner i (Suc i) pathCounts)
      else pathCounts)"
  by pat_completeness auto
termination
  by (relation "measure (\<lambda>(i, pathCounts). length pathCounts - i)")
    (auto simp: length_sort_inner)

declare sort_outer.simps [simp del]

text \<open>
  Modelled from the spec: the package \<^verbatim>\<open>cms\<close> of the analyzer's \<^verbatim>\<open>pathCounter\<close> is not
  among the sources. Its \<^verbatim>\<open>Estimate\<close> is a query of the sketch (section 4.3), so during
  one call of \<^verbatim>\<open>GetTopPaths\<close> it is a function from paths to counts: the parameter
  \<open>estimate\<close>. The last loop of the source copies the first \<open>n\<close> paths, or all of them
  when there are fewer; \<^verbatim>\<open>make([]string, 0, n)\<close> panics when \<open>n\<close> is negative.
\<close>

definition GetTopPaths :: "(string \<Rightarrow> u64) \<Rightarrow> string list \<Rightarrow> int \<Rightarrow> error + string list" where
  "GetTopPaths estimate paths n =
     (if n < 0 then Inl MakeSliceOutOfRange
      else Inr (map pc_Path (take (nat n)
             (sort_outer 0 (map (\<lambda>path. \<lparr>pc_Path = path, pc_Count = estimate path\<rparr>) paths)))))"

text \<open>Estimates for example inputs: one path with two hits, every other path with one.\<close>

definition demo_estimate :: "string \<Rightarrow> u64" where
  "demo_estimate path = (if path = ''/api/orders'' then 2 else 1)"

text \<open>
  Auxiliary notion for the proofs: every element before position \<open>i\<close> has a count that
  is at least the count of every element after it.
\<close>

definition prefix_max :: "nat \<Rightarrow> PathCount list \<Rightarrow> bool" where
  "prefix_max i xs \<longleftrightarrow>
     (\<forall>a b. a < i \<longrightarrow> a < b \<longrightarrow> b < length xs \<longrightarrow> pc_Count (xs ! b) \<le> pc_Count (xs ! a))"

section \<open>Log analyzer: processing an entry (the log analyzer program)\<close>

text \<open>
  \<^verbatim>\<open>time.Time\<close> is a type parameter: all that the analyzer does with a timestamp is to
  format it.
\<close>

record 'ts LogEntry =
  Timestamp :: 'ts
  IP :: string
  UserID :: string
  SessionID :: string
  Path :: string
  Status :: int
  Message :: string

text \<open>
  Modelled from the spec: the packages \<^verbatim>\<open>bloomfilter\<close>, \<^verbatim>\<open>cms\<close>, \<^verbatim>\<open>hyperloglog\<close>,
  \<^verbatim>\<open>minhash\<close> and \<^verbatim>\<open>lsh\<close> that the log analyzer imports are not among the sources. Their
  states are type parameters and the operations the analyzer calls are the fields of the
  record \<open>packages\<close>, with the formatting of a timestamp
  (\<^verbatim>\<open>Timestamp.Format(time.RFC3339)\<close>, standard library). From the spec they take their
  shape only: \<^verbatim>\<open>Test\<close> (the spec's \<open>contains\<close>, section 4.2) and \<^verbatim>\<open>Signature\<close> are
  queries, which return a value and leave their structure as it is ("mutated only by
  Add"); every other operation returns its structure updated.
\<close>

record ('bf, 'cms, 'hll, 'mh, 'lsh, 'sg, 'ts) packages =
  format_RFC3339 :: "'ts \<Rightarrow> string"
  deduper_Test :: "'bf \<Rightarrow> string \<Rightarrow> bool"
  deduper_Add :: "'bf \<Rightarrow> string \<Rightarrow> 'bf"
  pathCounter_Add :: "'cms \<Rightarrow> string \<Rightarrow> int \<Rightarrow> 'cms"
  counter_Add :: "'hll \<Rightarrow> string \<Rightarrow> 'hll"
  minhash_Reset :: "'mh \<Rightarrow> 'mh"
  minhash_Update :: "'mh \<Rightarrow> string \<Rightarrow> 'mh"
  minhash_Signature :: "'mh \<Rightarrow> 'sg"
  lsh_Insert :: "'lsh \<Rightarrow> int \<Rightarrow> 'sg \<Rightarrow> 'lsh"

record ('bf, 'cms, 'hll, 'mh, 'lsh, 'ts) LogAnalyzer =
  deduper :: 'bf
  pathCounter :: 'cms
  userCounter :: 'hll
  sessionCounter :: 'hll
  errorMinhash :: 'mh
  errorLSH :: 'lsh
  errorMessages :: "int \<rightharpoonup> 'ts LogEntry"
  nextErrorID :: int

text \<open>The verb \<^verbatim>\<open>%d\<close> of \<^verbatim>\<open>fmt.Sprintf\<close>: an integer in decimal.\<close>

function dec_digits :: "int \<Rightarrow> string" where
  "dec_digits n =
     (if n < 10 then [char_of (48 + n)]
      else dec_digits (n div 10) @ [char_of (48 + n mod 10)])"
  by pat_completeness auto
termination
  by (relation "measure nat") auto

declare dec_digits.simps [simp del]

definition format_d :: "int \<Rightarrow> string" where
  "format_d n = (if n < 0 then CHR ''-'' # dec_digits (- n) else dec_digits n)"

text \<open>The key of an entry: \<^verbatim>\<open>fmt.Sprintf("%s-%s-%s-%s-%d", ...)\<close>.\<close>

definition entryKey ::
  "('bf, 'cms, 'hll, 'mh, 'lsh, 'sg, 'ts) packages \<Rightarrow> 'ts LogEntry \<Rightarrow> string" where
  "entryKey pk entry =
     format_RFC3339 pk (Timestamp entry) @ ''-'' @ IP entry @ ''-'' @ UserID entry @ ''-'' @
     Path entry @ ''-'' @ format_d (Status entry)"

definition ProcessLogEntry ::
  "('bf, 'cms, 'hll, 'mh, 'lsh, 'sg, 'ts) packages \<Rightarrow>
   ('bf, 'cms, 'hll, 'mh, 'lsh, 'ts) LogAnalyzer \<Rightarrow> 'ts LogEntry \<Rightarrow>
   ('bf, 'cms, 'hll, 'mh, 'lsh, 'ts) LogAnalyzer" where
  "ProcessLogEntry pk la entry =
     (if deduper_Test pk (deduper la) (entryKey pk entry) then la
      else
        let la1 = la\<lparr>deduper := deduper_Add pk (deduper la) (entryKey pk entry)\<rparr>;
            la2 = la1\<lparr>pathCounter := pathCounter_Add pk (pathCounter la1) (Path entry) 1\<rparr>;
            la3 = la2\<lparr>userCounter := counter_Add pk (userCounter la2) (UserID entry)\<rparr>;
            la4 = la3\<lparr>sessionCounter := counter_Add pk (sessionCounter la3) (SessionID entry)\<rparr>
        in
          if 400 \<le> Status entry then
            let la5 = la4\<lparr>errorMinhash :=
                        minhash_Update pk (minhash_Reset pk (errorMinhash la4)) (Message entry)\<rparr>;
                signature = minhash_Signature pk (errorMinhash la5);
                la6 = la5\<lparr>errorMessages := (errorMessages la5)(nextErrorID la5 \<mapsto> entry)\<rparr>;
                la7 = la6\<lparr>errorLSH := lsh_Insert pk (errorLSH la6) (nextErrorID la6) signature\<rparr>
            in la7\<lparr>nextErrorID := nextErrorID la7 + 1\<rparr>
          else la4)"

text \<open>
  Packages for example inputs, which keep every item they are given in a list; a
  timestamp is the string it is formatted to.
\<close>

definition demo_packages ::
  "(string list, (string \<times> int) list, string list, string list, (int \<times> string list) list,
    string list, string) packages" where
  "demo_packages =
     \<lparr>format_RFC3339 = (\<lambda>ts. ts),
      deduper_Test = (\<lambda>bf key. key \<in> set bf),
      deduper_Add = (\<lambda>bf key. key # bf),
      pathCounter_Add = (\<lambda>c path n. (path, n) # c),
      counter_Add = (\<lambda>c item. item # c),
      minhash_Reset = (\<lambda>mh. []),
      minhash_Update = (\<lambda>mh data. data # mh),
      minhash_Signature = (\<lambda>mh. mh),
      lsh_Insert = (\<lambda>l docID sg. (docID, sg) # l)\<rparr>"

section \<open>LSH index and document set (the MinHash and LSH program)\<close>

text \<open>
  \<^verbatim>\<open>bandToString\<close>: the band is folded into a \<^verbatim>\<open>uint32\<close> (the constant
  \<^verbatim>\<open>uint32(math.MaxUint32) / 2\<close> is 2147483647; the product wraps) and printed in decimal.
\<close>

definition bandToString :: "u32 list \<Rightarrow> string" where
  "bandToString band = dec_digits (uint (fold (\<lambda>v h. (h XOR v) * 2147483647) band (- 1)))"

text \<open>
  A slice expression \<^verbatim>\<open>s[lo:hi]\<close> on a slice whose capacity is its length: it panics
  unless \<open>0 \<le> lo \<le> hi \<le> len(s)\<close>.
\<close>

definition go_slice :: "'a list \<Rightarrow> int \<Rightarrow> int \<Rightarrow> error + 'a list" where
  "go_slice xs lo hi =
     (if 0 \<le> lo \<and> lo \<le> hi \<and> hi \<le> int (length xs)
      then Inr (take (nat (hi - lo)) (drop (nat lo) xs))
      else Inl SliceBoundsOutOfRange)"

text \<open>
  A bucket table \<^verbatim>\<open>map[string][]int\<close> is a map from keys to lists; a key that is absent
  reads as the empty list.
\<close>

record LSH =
  bands :: int
  rows :: int
  hashTables :: "(string \<rightharpoonup> int list) list"
  minHash :: MinHash
  numDocuments :: int

definition bucket :: "(string \<rightharpoonup> int list) \<Rightarrow> string \<Rightarrow> int list" where
  "bucket table key = (case table key of None \<Rightarrow> [] | Some ids \<Rightarrow> ids)"

definition NewLSH :: "int \<Rightarrow> int \<Rightarrow> error + LSH" where
  "NewLSH b r =
     (if b < 0 then Inl MakeSliceOutOfRange
      else case NewMinHash (b * r) of
             Inl e \<Rightarrow> Inl e
           | Inr mh \<Rightarrow>
               Inr \<lparr>bands = b, rows = r, hashTables = replicate (nat b) Map.empty,
                    minHash = mh, numDocuments = 0\<rparr>)"

text \<open>The bounds of band \<open>i\<close> in a signature, as both loops over the bands compute them.\<close>

definition band_of :: "LSH \<Rightarrow> u32 list \<Rightarrow> nat \<Rightarrow> error + u32 list" where
  "band_of l signature i =
     go_slice signature (int i * rows l)
       (if int i * rows l + rows l > int (length signature) then int (length signature)
        else int i * rows l + rows l)"

text \<open>\<^verbatim>\<open>LSH.AddDocument\<close>: the loop over the bands, from band \<open>i\<close> on, and the method.\<close>

function AddDocument_bands :: "int \<Rightarrow> u32 list \<Rightarrow> nat \<Rightarrow> LSH \<Rightarrow> LSH \<times> error option" where
  "AddDocument_bands docID signature i l =
     (if int i < bands l then
        (case band_of l signature i of
           Inl e \<Rightarrow> (l, Some e)
         | Inr bandSig \<Rightarrow>
             if i < length (hashTables l)
             then AddDocument_bands docID signature (Suc i)
                    (l\<lparr>hashTables := (hashTables l)
                       [i := (hashTables l ! i)
                          (bandToString bandSig \<mapsto>
                             bucket (hashTables l ! i) (bandToString bandSig) @ [docID])]\<rparr>)
             else (l, Some IndexOutOfRange))
      else (l, None))"
  by pat_completeness auto
termination
  by (relation "measure (\<lambda>(docID, signature, i, l). nat (bands l) - i)") auto

declare AddDocument_bands.simps [simp del]

definition LSH_AddDocument :: "hash32 \<Rightarrow> LSH \<Rightarrow> int \<Rightarrow> string list \<Rightarrow> LSH \<times> error option" where
  "LSH_AddDocument h l docID shingles =
     (case Signature h (minHash l) shingles of
        Inl e \<Rightarrow> (l, Some e)
      | Inr signature \<Rightarrow>
          (case AddDocument_bands docID signature 0 l of
             (l', None) \<Rightarrow> (l'\<lparr>numDocuments := numDocuments l' + 1\<rparr>, None)
           | (l', Some e) \<Rightarrow> (l', Some e)))"

text \<open>
  \<^verbatim>\<open>LSH.FindSimilar\<close>. The set \<^verbatim>\<open>candidates\<close> (a map with empty values) is the list of
  its keys, each once, and the result \<^verbatim>\<open>similarities\<close> (a map from document ids to
  similarities) the list of its entries; Go leaves the order of a map's keys open. The
  similarity of every candidate is the constant \<^verbatim>\<open>0.0\<close> of the source
  ("Placeholder for actual similarity computation"). The threshold is a real number.
\<close>

function FindSimilar_bands :: "LSH \<Rightarrow> u32 list \<Rightarrow> nat \<Rightarrow> int list \<Rightarrow> error + int list" where
  "FindSimilar_bands l signature i candidates =
     (if int i < bands l then
        (case band_of l signature i of
           Inl e \<Rightarrow> Inl e
         | Inr bandSig \<Rightarrow>
             if i < length (hashTables l)
             then FindSimilar_bands l signature (Suc i)
                    (fold (\<lambda>docID cs. if docID \<in> set cs then cs else cs @ [docID])
                       (bucket (hashTables l ! i) (bandToString bandSig)) candidates)
             else Inl IndexOutOfRange)
      else Inr candidates)"
  by pat_completeness auto
termination
  by (relation "measure (\<lambda>(l, signature, i, candidates). nat (bands l) - i)") auto

declare FindSimilar_bands.simps [simp del]

definition LSH_FindSimilar ::
  "hash32 \<Rightarrow> LSH \<Rightarrow> string list \<Rightarrow> real \<Rightarrow> error + (int \<times> real) list" where
  "LSH_FindSimilar h l shingles threshold =
     (case Signature h (minHash l) shingles of
        Inl e \<Rightarrow> Inl e
      | Inr signature \<Rightarrow>
          (case FindSimilar_bands l signature 0 [] of
             Inl e \<Rightarrow> Inl e
           | Inr candidates \<Rightarrow>
               Inr (map (\<lambda>docID. (docID, 0)) (filter (\<lambda>docID. threshold \<le> 0) candidates))))"

record Document =
  doc_ID :: int
  doc_Path :: string
  Shingles :: "string list"
  doc_Signature :: "u32 list"

record DocumentSet =
  docs :: "int \<rightharpoonup> Document"
  ds_minHash :: MinHash
  lsh :: LSH
  nextID :: int

text \<open>Go's integer division truncates towards zero, and panics when the divisor is 0.\<close>

definition go_quot :: "int \<Rightarrow> int \<Rightarrow> int" where
  "go_quot a b = sgn a * sgn b * (\<bar>a\<bar> div \<bar>b\<bar>)"

definition NewDocumentSet :: "int \<Rightarrow> int \<Rightarrow> error + DocumentSet" where
  "NewDocumentSet hashFunctions b =
     (if b = 0 then Inl DivideByZero
      else case NewMinHash hashFunctions of
             Inl e \<Rightarrow> Inl e
           | Inr mh \<Rightarrow>
               (case NewLSH b (go_quot hashFunctions b) of
                  Inl e \<Rightarrow> Inl e
                | Inr l \<Rightarrow> Inr \<lparr>docs = Map.empty, ds_minHash = mh, lsh = l, nextID = 0\<rparr>))"

text \<open>
  \<^verbatim>\<open>DocumentSet.AddDocument\<close>, from the point where the file has been read and
  \<^verbatim>\<open>DocumentToSet\<close> has returned its shingles (opening and scanning the file are outside
  the embedding).
\<close>

definition AddDocument ::
  "hash32 \<Rightarrow> DocumentSet \<Rightarrow> string \<Rightarrow> string list \<Rightarrow> DocumentSet \<times> error option" where
  "AddDocument h ds path shingles =
     (case Signature h (ds_minHash ds) shingles of
        Inl e \<Rightarrow> (ds\<lparr>nextID := nextID ds + 1\<rparr>, Some e)
      | Inr signature \<Rightarrow>
          (case LSH_AddDocument h (lsh ds) (nextID ds) shingles of
             (l', e) \<Rightarrow>
               (ds\<lparr>nextID := nextID ds + 1,
                   docs := (docs ds)(nextID ds \<mapsto>
                     \<lparr>doc_ID = nextID ds, doc_Path = path, Shingles = shingles,
                      doc_Signature = signature\<rparr>),
                   lsh := l'\<rparr>, e)))"

text \<open>\<^verbatim>\<open>similarity >= threshold\<close> on a \<^verbatim>\<open>float64\<close>: false for NaN.\<close>

fun at_least :: "float64 \<Rightarrow> real \<Rightarrow> bool" where
  "at_least (Num x) threshold = (threshold \<le> x)"
| "at_least NaN threshold = False"

text \<open>
  \<^verbatim>\<open>DocumentSet.FindSimilar\<close>: the loop over the ids that \<^verbatim>\<open>LSH.FindSimilar\<close> returned,
  and the method. A document id that is not in \<open>docs\<close> gives a nil pointer, whose
  \<^verbatim>\<open>Signature\<close> cannot be read. The result \<^verbatim>\<open>nil\<close> for an unknown document is the empty
  list.
\<close>

fun FindSimilar_ids ::
  "DocumentSet \<Rightarrow> Document \<Rightarrow> int \<Rightarrow> real \<Rightarrow> int list \<Rightarrow> Document list \<Rightarrow> error + Document list" where
  "FindSimilar_ids ds doc docID threshold [] similar = Inr similar"
| "FindSimilar_ids ds doc docID threshold (ident # ids) similar =
     (if ident = docID then FindSimilar_ids ds doc docID threshold ids similar
      else case docs ds ident of
             None \<Rightarrow> Inl NilDereference
           | Some otherDoc \<Rightarrow>
               (case Similarity (ds_minHash ds) (doc_Signature doc) (doc_Signature otherDoc) of
                  Inl e \<Rightarrow> Inl e
                | Inr similarity \<Rightarrow>
                    FindSimilar_ids ds doc docID threshold ids
                      (if at_least similarity threshold then similar @ [otherDoc] else similar)))"

definition FindSimilar :: "hash32 \<Rightarrow> DocumentSet \<Rightarrow> int \<Rightarrow> real \<Rightarrow> error + Document list" where
  "FindSimilar h ds docID threshold =
     (case docs ds docID of
        None \<Rightarrow> Inr []
      | Some doc \<Rightarrow>
          (case LSH_FindSimilar h (lsh ds) (Shingles doc) threshold of
             Inl e \<Rightarrow> Inl e
           | Inr similarIDs \<Rightarrow> FindSimilar_ids ds doc docID threshold (map fst similarIDs) []))"

text \<open>
  A client that builds a document set, adds two documents and asks for the documents
  similar to the first one; the paths of the result, or the first panic.
\<close>

definition similar_to_first ::
  "hash32 \<Rightarrow> int \<Rightarrow> int \<Rightarrow> string list \<Rightarrow> string list \<Rightarrow> real \<Rightarrow> error + string list" where
  "similar_to_first h hashFunctions b shingles1 shingles2 threshold =
     (case NewDocumentSet hashFunctions b of
        Inl e \<Rightarrow> Inl e
      | Inr ds0 \<Rightarrow>
          (case AddDocument h ds0 ''first.txt'' shingles1 of
             (ds1, Some e) \<Rightarrow> Inl e
           | (ds1, None) \<Rightarrow>
               (case AddDocument h ds1 ''second.txt'' shingles2 of
                  (ds2, Some e) \<Rightarrow> Inl e
                | (ds2, None) \<Rightarrow>
                    (case FindSimilar h ds2 0 threshold of
                       Inl e \<Rightarrow> Inl e
                     | Inr similar \<Rightarrow> Inr (map doc_Path similar)))))"

text \<open>
  A concrete hash function, to evaluate the definitions at example inputs (the theorems
  hold for every hash function). The same for the 32-bit hash.
\<close>

definition demo_hash64 :: hash64 where
  "demo_hash64 data seed = word_of_int (sum_list (map of_char data)) * 31 + ucast seed * 7"

definition demo_hash32 :: hash32 where
  "demo_hash32 data seed =
     word_of_int (sum_list (map of_char data)) * 2654435761 + seed * 40503"

section \<open>Properties of the Count-Min Sketch\<close>

lemma cms_pos_less: "w \<noteq> 0 \<Longrightarrow> cms_pos h w data r < unat w"
  unfolding cms_pos_def
  by (simp add: unat_gt_0 unat_mod_distrib)

lemma cms_getPosition_Inr:
  "width cms \<noteq> 0 \<Longrightarrow>
   cms_getPosition h cms data (word_of_nat r) =
     Inr (h data (ucast (word_of_nat r :: u64)) mod width cms)"
  by (simp add: cms_getPosition_def)

lemma Increment_loop_effect:
  "cms_wf cms \<Longrightarrow> width cms \<noteq> 0 \<Longrightarrow>
   \<exists>cms'. Increment_loop h data cnt i cms = (cms', None) \<and> cms_wf cms' \<and>
     width cms' = width cms \<and> depth cms' = depth cms \<and>
     (\<forall>r < unat (depth cms). \<forall>c < unat (width cms).
        matrix cms' ! r ! c =
          matrix cms ! r ! c + (if i \<le> r \<and> c = cms_pos h (width cms) data r then cnt else 0))"
proof (induction h data cnt i cms rule: Increment_loop.induct)
  case (1 h data cnt i cms)
  show ?case
  proof (cases "i < unat (depth cms)")
    case False
    then show ?thesis
      using "1.prems" by (subst Increment_loop.simps) auto
  next
    case True
    let ?p = "cms_pos h (width cms) data i"
    let ?cms1 = "cms\<lparr>matrix := (matrix cms)[i := (matrix cms ! i)[?p := matrix cms ! i ! ?p + cnt]]\<rparr>"
    have len: "i < length (matrix cms)" "?p < length (matrix cms ! i)"
      using True "1.prems" cms_pos_less [of "width cms" h data i] by (auto simp: cms_wf_def)
    have wf1: "cms_wf ?cms1"
      using "1.prems"(1) len by (auto simp: cms_wf_def nth_list_update split: if_splits)
    have step: "Increment_loop h data cnt i cms = Increment_loop h data cnt (Suc i) ?cms1"
      using True len "1.prems"(2)
      by (subst Increment_loop.simps) (simp add: cms_getPosition_Inr cms_pos_def)
    have IH: "\<exists>cms'. Increment_loop h data cnt (Suc i) ?cms1 = (cms', None) \<and> cms_wf cms' \<and>
       width cms' = width ?cms1 \<and> depth cms' = depth ?cms1 \<and>
       (\<forall>r < unat (depth ?cms1). \<forall>c < unat (width ?cms1).
          matrix cms' ! r ! c =
            matrix ?cms1 ! r ! c + (if Suc i \<le> r \<and> c = cms_pos h (width ?cms1) data r then cnt else 0))"
      using "1.IH" [OF True cms_getPosition_Inr [OF "1.prems"(2)]] len wf1 "1.prems"(2)
      by (simp add: cms_pos_def)
    then obtain cms' where c': "Increment_loop h data cnt (Suc i) ?cms1 = (cms', None)" "cms_wf cms'"
       "width cms' = width cms" "depth cms' = depth cms"
       and cells: "\<And>r c. r < unat (depth cms) \<Longrightarrow> c < unat (width cms) \<Longrightarrow>
          matrix cms' ! r ! c =
            matrix ?cms1 ! r ! c + (if Suc i \<le> r \<and> c = cms_pos h (width cms) data r then cnt else 0)"
      by auto
    have "matrix cms' ! r ! c =
          matrix cms ! r ! c + (if i \<le> r \<and> c = cms_pos h (width cms) data r then cnt else 0)"
      if "r < unat (depth cms)" "c < unat (width cms)" for r c
      using cells [OF that] len that "1.prems"(1)
      by (cases "r = i") (auto simp: nth_list_update cms_wf_def)
    then show ?thesis
      using step c' by auto
  qed
qed


lemma Increment_effect:
  "cms_wf cms \<Longrightarrow> width cms \<noteq> 0 \<Longrightarrow>
   \<exists>cms'. Increment h cms data cnt = (cms', None) \<and> cms_wf cms' \<and>
     width cms' = width cms \<and> depth cms' = depth cms \<and>
     (\<forall>r < unat (depth cms). \<forall>c < unat (width cms).
        matrix cms' ! r ! c =
          matrix cms ! r ! c + (if c = cms_pos h (width cms) data r then cnt else 0))"
  using Increment_loop_effect [of cms h data cnt 0] by (simp add: Increment_def)

lemma IncrementAll_effect:
  "cms_wf cms \<Longrightarrow> width cms \<noteq> 0 \<Longrightarrow>
   \<exists>cms'. IncrementAll h cms ops = (cms', None) \<and> cms_wf cms' \<and>
     width cms' = width cms \<and> depth cms' = depth cms \<and>
     (\<forall>r < unat (depth cms). \<forall>c < unat (width cms).
        matrix cms' ! r ! c = matrix cms ! r ! c + word_of_nat (hits h (width cms) r c ops))"
proof (induction ops arbitrary: cms)
  case Nil
  then show ?case by simp
next
  case (Cons op ops)
  obtain data cnt where op: "op = (data, cnt)" by (cases op)
  from Increment_effect [OF Cons.prems, of h data cnt]
  obtain cms1 where c1: "Increment h cms data cnt = (cms1, None)" "cms_wf cms1"
      "width cms1 = width cms" "depth cms1 = depth cms"
    and cells1: "\<And>r c. r < unat (depth cms) \<Longrightarrow> c < unat (width cms) \<Longrightarrow>
        matrix cms1 ! r ! c =
          matrix cms ! r ! c + (if c = cms_pos h (width cms) data r then cnt else 0)"
    by auto
  from Cons.IH [of cms1] c1 Cons.prems
  obtain cms' where c': "IncrementAll h cms1 ops = (cms', None)" "cms_wf cms'"
      "width cms' = width cms" "depth cms' = depth cms"
    and cells': "\<And>r c. r < unat (depth cms) \<Longrightarrow> c < unat (width cms) \<Longrightarrow>
        matrix cms' ! r ! c = matrix cms1 ! r ! c + word_of_nat (hits h (width cms) r c ops)"
    by auto
  have "matrix cms' ! r ! c = matrix cms ! r ! c + word_of_nat (hits h (width cms) r c (op # ops))"
    if "r < unat (depth cms)" "c < unat (width cms)" for r c
    using cells' [OF that] cells1 [OF that] by (simp add: op)
  then show ?case
    using c1 c' by (simp add: op)
qed

lemma true_count_le_hits: "true_count x ops \<le> hits h w r (cms_pos h w x r) ops"
  by (induction ops) (auto)

lemma hits_le_total: "hits h w r c ops \<le> total_count ops"
  by (induction ops) (auto)

lemma NewCountMinSketch_wf: "cms_wf (NewCountMinSketch w d)"
  by (simp add: cms_wf_def NewCountMinSketch_def)

lemma Count_loop_lower:
  "cms_wf cms \<Longrightarrow> width cms \<noteq> 0 \<Longrightarrow>
   (\<And>r. i \<le> r \<Longrightarrow> r < unat (depth cms) \<Longrightarrow>
      L \<le> unat (matrix cms ! r ! cms_pos h (width cms) data r)) \<Longrightarrow>
   L \<le> unat mn \<Longrightarrow>
   \<exists>m. Count_loop h cms data i mn = Inr m \<and> L \<le> unat m"
proof (induction h cms data i mn rule: Count_loop.induct)
  case (1 h cms data i mn)
  show ?case
  proof (cases "i < unat (depth cms)")
    case False
    then show ?thesis using "1.prems"(4) by (subst Count_loop.simps) simp
  next
    case True
    let ?p = "cms_pos h (width cms) data i"
    let ?v = "matrix cms ! i ! ?p"
    have len: "i < length (matrix cms)" "?p < length (matrix cms ! i)"
      using True "1.prems"(1,2) cms_pos_less [of "width cms" h data i] by (auto simp: cms_wf_def)
    have step: "Count_loop h cms data i mn =
        Count_loop h cms data (Suc i) (if ?v < mn then ?v else mn)"
      using True len "1.prems"(2)
      by (subst Count_loop.simps) (simp add: cms_getPosition_Inr cms_pos_def)
    have L: "L \<le> unat (if ?v < mn then ?v else mn)"
      using "1.prems"(3) [of i] "1.prems"(4) True by simp
    have gp: "cms_getPosition h cms data (word_of_nat i) =
        Inr (h data (ucast (word_of_nat i :: u64)) mod width cms)"
      by (rule cms_getPosition_Inr [OF "1.prems"(2)])
    have "\<exists>m. Count_loop h cms data (Suc i) (if ?v < mn then ?v else mn) = Inr m \<and> L \<le> unat m"
      unfolding cms_pos_def
    proof (rule "1.IH" [OF True gp])
    qed (use len L "1.prems" in \<open>auto simp: cms_pos_def\<close>)
    then show ?thesis using step by simp
  qed
qed

lemma cms_getPosition_eq_iff:
  assumes "width cms \<noteq> 0" and "c < unat (width cms)"
  shows "cms_getPosition h cms x (word_of_nat r) = Inr (word_of_nat c) \<longleftrightarrow>
         c = cms_pos h (width cms) x r"
proof -
  have "c < 2 ^ 64"
    using assms(2) unsigned_less [of "width cms", where 'a = nat] by simp
  then have c: "unat (word_of_nat c :: u64) = c"
    by (simp add: unat_of_nat)
  show ?thesis
    using assms(1) c by (auto simp: cms_getPosition_def cms_pos_def)
qed

text \<open>
  Claim C1, as the code has it. \<^verbatim>\<open>Increment\<close> adds with \<^verbatim>\<open>+=\<close> on \<^verbatim>\<open>uint32\<close>, which
  wraps, so the sketch can underestimate once a cell overflows. As long as the counts of
  all calls together stay below \<open>2 ^ 32\<close>, no cell overflows: on a sketch of non-zero
  width built by \<^verbatim>\<open>NewCountMinSketch\<close>, every sequence of \<^verbatim>\<open>Increment\<close> calls returns
  without a panic, and \<^verbatim>\<open>Count(x)\<close> then returns a value that is at least the sum of the
  counts passed to \<^verbatim>\<open>Increment\<close> for \<open>x\<close>.
\<close>

theorem cms_no_underestimate_below_overflow:
  assumes "w \<noteq> 0" and "total_count ops < 2 ^ 32"
  shows "\<exists>cms c. IncrementAll h (NewCountMinSketch w d) ops = (cms, None) \<and>
           Count h cms x = Inr c \<and> true_count x ops \<le> unat c"
proof -
  let ?new = "NewCountMinSketch w d"
  have w: "width ?new = w" and d: "depth ?new = d" by (simp_all add: NewCountMinSketch_def)
  from IncrementAll_effect [OF NewCountMinSketch_wf, of w d h ops] assms(1) w d
  obtain cms where c: "IncrementAll h ?new ops = (cms, None)" "cms_wf cms"
      "width cms = w" "depth cms = d"
    and cells: "\<And>r c. r < unat d \<Longrightarrow> c < unat w \<Longrightarrow>
        matrix cms ! r ! c = matrix ?new ! r ! c + word_of_nat (hits h w r c ops)"
    by auto
  have cell: "unat (matrix cms ! r ! cms_pos h w x r) = hits h w r (cms_pos h w x r) ops"
    if "r < unat d" for r
  proof -
    have "hits h w r (cms_pos h w x r) ops < 2 ^ 32"
      using hits_le_total [of h w r "cms_pos h w x r" ops] assms(2) by simp
    moreover have "matrix cms ! r ! cms_pos h w x r = word_of_nat (hits h w r (cms_pos h w x r) ops)"
      using cells [OF that cms_pos_less [OF assms(1)]] that cms_pos_less [OF assms(1), of h x r]
      by (simp add: NewCountMinSketch_def)
    ultimately show ?thesis
      by (simp add: unat_of_nat)
  qed
  have "true_count x ops < 2 ^ 32"
    using true_count_le_hits [of x ops h w 0] hits_le_total [of h w 0 "cms_pos h w x 0" ops] assms(2)
    by simp
  moreover have "unat (- 1 :: u32) = 4294967295"
    by (simp add: unsigned_minus_1_eq_mask mask_eq_exp_minus_1)
  ultimately have "true_count x ops \<le> unat (- 1 :: u32)"
    by simp
  from Count_loop_lower [where cms = cms and h = h and i = 0 and L = "true_count x ops"
      and data = x and mn = "- 1", OF c(2)] c(3,4) assms(1) cell
    true_count_le_hits [of x ops h w] this
  obtain m where "Count_loop h cms x 0 (- 1) = Inr m" "true_count x ops \<le> unat m"
    by auto
  then show ?thesis using c(1) by (auto simp: Count_def)
qed


theorem cms_no_underestimate_below_overflow_witness:
  "(3 :: u64) \<noteq> 0 \<and> total_count [(''go'', 2), (''rust'', 1), (''go'', 3)] < 2 ^ 32 \<and>
   (\<exists>cms c. IncrementAll demo_hash64 (NewCountMinSketch 3 2)
               [(''go'', 2), (''rust'', 1), (''go'', 3)] = (cms, None) \<and>
            Count demo_hash64 cms ''go'' = Inr c \<and> 5 \<le> unat c)"
proof -
  have w: "(3 :: u64) \<noteq> 0" by simp
  have t: "total_count [(''go'', 2), (''rust'', 1), (''go'', 3)] < 2 ^ 32" by simp
  have tc: "true_count ''go'' [(''go'', 2), (''rust'', 1), (''go'', 3)] = 5" by simp
  from cms_no_underestimate_below_overflow [OF w t, of demo_hash64 2 "''go''"]
  have "\<exists>cms c. IncrementAll demo_hash64 (NewCountMinSketch 3 2)
               [(''go'', 2), (''rust'', 1), (''go'', 3)] = (cms, None) \<and>
            Count demo_hash64 cms ''go'' = Inr c \<and> 5 \<le> unat c"
    unfolding tc .
  with w t show ?thesis by blast
qed


text \<open>
  The claim as stated fails: a sketch of width 3 and depth 2 that counts the item
  \<open>''go''\<close> \<open>4294967295\<close> times and then once more returns 0 for it, where the calls
  add up to \<open>4294967296\<close>.
\<close>

theorem cms_underestimates_counterexample:
  "snd (IncrementAll demo_hash64 (NewCountMinSketch 3 2) [(''go'', 4294967295), (''go'', 1)]) = None \<and>
   Count demo_hash64
     (fst (IncrementAll demo_hash64 (NewCountMinSketch 3 2) [(''go'', 4294967295), (''go'', 1)]))
     ''go'' = Inr 0 \<and>
   true_count ''go'' [(''go'', 4294967295), (''go'', 1)] = 4294967296"
proof -
  have "snd (IncrementAll demo_hash64 (NewCountMinSketch 3 2) [(''go'', 4294967295), (''go'', 1)]) = None"
    by code_simp
  moreover have "Count demo_hash64
     (fst (IncrementAll demo_hash64 (NewCountMinSketch 3 2) [(''go'', 4294967295), (''go'', 1)]))
     ''go'' = Inr 0"
    by code_simp
  moreover have "true_count ''go'' [(''go'', 4294967295), (''go'', 1)] = 4294967296"
    by simp
  ultimately show ?thesis by blast
qed


text \<open>
  Claim C5, as the code has it. The addition of \<^verbatim>\<open>Increment\<close> is modular, not
  saturating: on every sketch reached from \<^verbatim>\<open>NewCountMinSketch\<close> (of non-zero width) by
  \<^verbatim>\<open>Increment\<close> calls, a further \<^verbatim>\<open>Increment(x, cnt)\<close> returns without a panic, and
  each cell of the matrix then holds its old value plus \<open>cnt\<close> modulo \<open>2 ^ 32\<close> when it
  is the cell of \<open>x\<close> in its row (the column \<^verbatim>\<open>getPosition\<close> returns), and its old value
  otherwise. So a cell decreases exactly when its addition passes \<open>2 ^ 32 - 1\<close>.
\<close>

theorem Increment_wraps_modulo:
  assumes "w \<noteq> 0" and "IncrementAll h (NewCountMinSketch w d) ops = (cms, e)"
  shows "e = None \<and>
    (\<exists>cms'. Increment h cms x cnt = (cms', None) \<and>
      (\<forall>r < unat d. \<forall>c < unat w.
         unat (matrix cms' ! r ! c) =
           (unat (matrix cms ! r ! c) +
              (if cms_getPosition h cms x (word_of_nat r) = Inr (word_of_nat c)
               then unat cnt else 0)) mod 2 ^ 32))"
proof -
  let ?new = "NewCountMinSketch w d"
  have w: "width ?new = w" and d: "depth ?new = d" by (simp_all add: NewCountMinSketch_def)
  from IncrementAll_effect [OF NewCountMinSketch_wf, of w d h ops] assms w d
  have e: "e = None" and wf: "cms_wf cms" and dims: "width cms = w" "depth cms = d"
    by auto
  from Increment_effect [OF wf, of h x cnt] dims assms(1)
  obtain cms' where inc: "Increment h cms x cnt = (cms', None)"
    and cells: "\<And>r c. r < unat d \<Longrightarrow> c < unat w \<Longrightarrow>
        matrix cms' ! r ! c =
          matrix cms ! r ! c + (if c = cms_pos h w x r then cnt else 0)"
    by auto
  have "unat (matrix cms' ! r ! c) =
           (unat (matrix cms ! r ! c) +
              (if cms_getPosition h cms x (word_of_nat r) = Inr (word_of_nat c)
               then unat cnt else 0)) mod 2 ^ 32"
    if "r < unat d" "c < unat w" for r c
    using cells [OF that] cms_getPosition_eq_iff [of cms c h x r] that(2) dims assms(1)
    by (simp add: unat_word_ariths)
  then show ?thesis
    using e inc by blast
qed

theorem Increment_wraps_modulo_witness:
  "(3 :: u64) \<noteq> 0 \<and>
   IncrementAll demo_hash64 (NewCountMinSketch 3 2) [(''go'', 4294967295)] =
     (\<lparr>matrix = [[0, 4294967295, 0], [0, 0, 4294967295]], width = 3, depth = 2\<rparr>, None) \<and>
   unat (matrix (fst (Increment demo_hash64
       \<lparr>matrix = [[0, 4294967295, 0], [0, 0, 4294967295]], width = 3, depth = 2\<rparr>
       ''go'' 1)) ! 1 ! 2) = 0"
proof -
  let ?cms = "\<lparr>matrix = [[0, 4294967295, 0], [0, 0, 4294967295 :: u32]], width = 3 :: u64, depth = 2 :: u64\<rparr>"
  have w: "(3 :: u64) \<noteq> 0" by simp
  have run: "IncrementAll demo_hash64 (NewCountMinSketch 3 2) [(''go'', 4294967295)] = (?cms, None)"
    by code_simp
  have pos: "cms_getPosition demo_hash64 ?cms ''go'' (word_of_nat 1) = Inr (word_of_nat 2)"
    by code_simp
  from Increment_wraps_modulo [OF w run, of "''go''" 1]
  obtain cms' where inc: "Increment demo_hash64 ?cms ''go'' 1 = (cms', None)"
    and cells: "\<forall>r < unat (2 :: u64). \<forall>c < unat (3 :: u64).
         unat (matrix cms' ! r ! c) =
           (unat (matrix ?cms ! r ! c) +
              (if cms_getPosition demo_hash64 ?cms ''go'' (word_of_nat r) = Inr (word_of_nat c)
               then unat (1 :: u32) else 0)) mod 2 ^ 32"
    by blast
  have "unat (matrix cms' ! 1 ! 2) =
           (unat (matrix ?cms ! 1 ! 2) +
              (if cms_getPosition demo_hash64 ?cms ''go'' (word_of_nat 1) = Inr (word_of_nat 2)
               then unat (1 :: u32) else 0)) mod 2 ^ 32"
    using cells by simp
  then have "unat (matrix cms' ! 1 ! 2) = 0"
    unfolding pos by simp
  then show ?thesis
    using w run inc by simp
qed


text \<open>
  The claim as stated fails: the cell of \<open>''go''\<close> in row 0 holds \<open>4294967295\<close> after the
  first call and 0 after a second call that adds 1.
\<close>

theorem Increment_saturating_counterexample:
  "matrix (fst (Increment demo_hash64 (NewCountMinSketch 3 2) ''go'' 4294967295)) ! 0 ! 1 = 4294967295 \<and>
   matrix (fst (Increment demo_hash64
      (fst (Increment demo_hash64 (NewCountMinSketch 3 2) ''go'' 4294967295)) ''go'' 1)) ! 0 ! 1 = 0"
  by code_simp

section \<open>Properties of the Bloom filter\<close>

lemma or_bit_mono: "bit (w :: u64) n \<Longrightarrow> bit (w OR 2 ^ b) n"
  by (simp add: bit_or_iff)

lemma or_bit_sets: "b < 64 \<Longrightarrow> bit ((w :: u64) OR 2 ^ b) b"
  by (simp add: bit_or_iff bit_exp_iff)

lemma and_bit_zero: "((w :: u64) AND 2 ^ b = 0) = (\<not> bit w b)"
  by (simp add: and_exp_eq_0_iff_not_bit)

lemma mod64_less: "unat ((p :: u64) mod 64) < 64"
  by (simp add: unat_mod_distrib)

lemma bf_getPosition_Inr:
  "bf_size bf \<noteq> 0 \<Longrightarrow> bf_getPosition h bf data (word_of_nat j) = Inr (bf_pos h (bf_size bf) data j)"
  by (simp add: bf_getPosition_def bf_pos_def)

lemma bf_getPosition_Inl:
  "bf_size bf = 0 \<Longrightarrow> bf_getPosition h bf data hashNum = Inl DivideByZero"
  by (simp add: bf_getPosition_def)

lemma nth_update_or_mono:
  "j < length bs \<Longrightarrow> bit (bs ! j) n \<Longrightarrow> bit (bs[ix := bs ! ix OR 2 ^ b] ! j) n"
  for bs :: "u64 list"
  by (cases "ix < length bs") (auto simp: nth_list_update or_bit_mono)

lemma bit_set_update_mono:
  "bit_set bs p \<Longrightarrow> bit_set (bs[ix := bs ! ix OR 2 ^ b]) p"
  by (simp add: bit_set_def nth_update_or_mono)

lemma bit_set_update_sets:
  "unat (p div 64) < length bs \<Longrightarrow>
   bit_set (bs[unat (p div 64) := bs ! unat (p div 64) OR 2 ^ unat (p mod 64)]) p"
  by (simp add: bit_set_def or_bit_sets mod64_less)

lemma Add_loop_frame:
  "Add_loop h data i bf = (bf', e) \<Longrightarrow>
   length (bitset bf') = length (bitset bf) \<and> bf_size bf' = bf_size bf \<and> bf_k bf' = bf_k bf \<and>
   (\<forall>p. bit_set (bitset bf) p \<longrightarrow> bit_set (bitset bf') p) \<and>
   (\<forall>j n. j < length (bitset bf) \<longrightarrow> bit (bitset bf ! j) n \<longrightarrow> bit (bitset bf' ! j) n)"
proof (induction h data i bf rule: Add_loop.induct)
  case (1 h data i bf)
  show ?case
  proof (cases "i < unat (bf_k bf)")
    case False
    then show ?thesis using "1.prems" by (subst (asm) Add_loop.simps) auto
  next
    case k: True
    show ?thesis
    proof (cases "bf_size bf = 0")
      case True
      then show ?thesis
        using "1.prems" k by (subst (asm) Add_loop.simps) (auto simp: bf_getPosition_Inl)
    next
      case sz: False
      let ?p = "bf_pos h (bf_size bf) data i"
      let ?ix = "unat (?p div 64)"
      let ?bf1 = "bf\<lparr>bitset := (bitset bf)[?ix := bitset bf ! ?ix OR push_bit (unat (?p mod 64)) 1]\<rparr>"
      note gp = bf_getPosition_Inr [OF sz, of h data i]
      show ?thesis
      proof (cases "?ix < length (bitset bf)")
        case False
        then show ?thesis
          using "1.prems" k gp by (subst (asm) Add_loop.simps) auto
      next
        case ix: True
        have step: "Add_loop h data (Suc i) ?bf1 = (bf', e)"
          using "1.prems" k gp ix by (subst (asm) Add_loop.simps) simp
        from "1.IH" [OF k gp ix step]
        have IH: "length (bitset bf') = length (bitset bf)" "bf_size bf' = bf_size bf"
            "bf_k bf' = bf_k bf"
            "\<And>p. bit_set (bitset ?bf1) p \<Longrightarrow> bit_set (bitset bf') p"
            "\<And>j n. j < length (bitset bf) \<Longrightarrow> bit (bitset ?bf1 ! j) n \<Longrightarrow> bit (bitset bf' ! j) n"
          by auto
        have "bit_set (bitset bf') p" if "bit_set (bitset bf) p" for p
          using IH(4) [of p] bit_set_update_mono [OF that] by simp
        moreover have "bit (bitset bf' ! j) n" if "j < length (bitset bf)" "bit (bitset bf ! j) n" for j n
          using IH(5) [OF that(1), of n] nth_update_or_mono [OF that] by simp
        ultimately show ?thesis using IH(1-3) by blast
      qed
    qed
  qed
qed

lemma Add_loop_sets:
  "Add_loop h data i bf = (bf', None) \<Longrightarrow> i \<le> j \<Longrightarrow> j < unat (bf_k bf) \<Longrightarrow>
   bf_size bf \<noteq> 0 \<and> bit_set (bitset bf') (bf_pos h (bf_size bf) data j)"
proof (induction h data i bf rule: Add_loop.induct)
  case (1 h data i bf)
  have k: "i < unat (bf_k bf)" using "1.prems" by simp
  show ?case
  proof (cases "bf_size bf = 0")
    case True
    then show ?thesis
      using "1.prems" k by (subst (asm) Add_loop.simps) (auto simp: bf_getPosition_Inl)
  next
    case sz: False
    let ?p = "bf_pos h (bf_size bf) data i"
    let ?ix = "unat (?p div 64)"
    let ?bf1 = "bf\<lparr>bitset := (bitset bf)[?ix := bitset bf ! ?ix OR push_bit (unat (?p mod 64)) 1]\<rparr>"
    note gp = bf_getPosition_Inr [OF sz, of h data i]
    have ix: "?ix < length (bitset bf)"
      using "1.prems"(1) k gp by (subst (asm) Add_loop.simps) (auto split: if_splits)
    have step: "Add_loop h data (Suc i) ?bf1 = (bf', None)"
      using "1.prems"(1) k gp ix by (subst (asm) Add_loop.simps) simp
    show ?thesis
    proof (cases "j = i")
      case True
      have "bit_set (bitset ?bf1) ?p"
        using bit_set_update_sets [OF ix] by simp
      then have "bit_set (bitset bf') ?p"
        using Add_loop_frame [OF step] by blast
      then show ?thesis using sz True by simp
    next
      case False
      then have "Suc i \<le> j" using "1.prems"(2) by simp
      from "1.IH" [OF k gp ix step this] "1.prems"(3) sz
      show ?thesis by simp
    qed
  qed
qed

lemma Add_frame:
  "Add h bf data = (bf', e) \<Longrightarrow>
   length (bitset bf') = length (bitset bf) \<and> bf_size bf' = bf_size bf \<and> bf_k bf' = bf_k bf \<and>
   (\<forall>p. bit_set (bitset bf) p \<longrightarrow> bit_set (bitset bf') p) \<and>
   (\<forall>j n. j < length (bitset bf) \<longrightarrow> bit (bitset bf ! j) n \<longrightarrow> bit (bitset bf' ! j) n)"
  unfolding Add_def by (rule Add_loop_frame)

lemma AddAll_frame:
  "AddAll h bf items = (bf', e) \<Longrightarrow>
   length (bitset bf') = length (bitset bf) \<and> bf_size bf' = bf_size bf \<and> bf_k bf' = bf_k bf \<and>
   (\<forall>p. bit_set (bitset bf) p \<longrightarrow> bit_set (bitset bf') p)"
proof (induction items arbitrary: bf)
  case Nil
  then show ?case by simp
next
  case (Cons data items)
  obtain bf1 e1 where a: "Add h bf data = (bf1, e1)" by (cases "Add h bf data")
  show ?case
  proof (cases e1)
    case None
    with Cons.prems a have "AddAll h bf1 items = (bf', e)" by simp
    from Cons.IH [OF this] Add_frame [OF a] show ?thesis by auto
  next
    case (Some err)
    with Cons.prems a have "bf' = bf1" by simp
    with Add_frame [OF a] show ?thesis by auto
  qed
qed

lemma Contains_loop_True:
  "bf_size bf \<noteq> 0 \<Longrightarrow>
   (\<And>j. i \<le> j \<Longrightarrow> j < unat (bf_k bf) \<Longrightarrow> bit_set (bitset bf) (bf_pos h (bf_size bf) data j)) \<Longrightarrow>
   Contains_loop h bf data i = Inr True"
proof (induction h bf data i rule: Contains_loop.induct)
  case (1 h bf data i)
  show ?case
  proof (cases "i < unat (bf_k bf)")
    case False
    then show ?thesis by (subst Contains_loop.simps) simp
  next
    case k: True
    let ?p = "bf_pos h (bf_size bf) data i"
    note gp = bf_getPosition_Inr [OF "1.prems"(1), of h data i]
    have b: "bit_set (bitset bf) ?p" using "1.prems"(2) [of i] k by simp
    then have ix: "unat (?p div 64) < length (bitset bf)"
      and nz: "bitset bf ! unat (?p div 64) AND push_bit (unat (?p mod 64)) 1 \<noteq> 0"
      by (simp_all add: bit_set_def and_bit_zero)
    have "Contains_loop h bf data (Suc i) = Inr True"
      using "1.IH" [OF k gp ix nz "1.prems"(1)] "1.prems"(2) by simp
    then show ?thesis
      using k gp ix nz by (subst Contains_loop.simps) simp
  qed
qed

lemma AddAll_append:
  "AddAll h bf (xs @ ys) =
     (case AddAll h bf xs of (bf1, None) \<Rightarrow> AddAll h bf1 ys | (bf1, Some e) \<Rightarrow> (bf1, Some e))"
  by (induction xs arbitrary: bf) (auto split: prod.splits option.splits)

lemma AddAll_contains:
  assumes "AddAll h bf0 (pre @ item # post) = (bf, None)"
  shows "Contains h bf item = Inr True"
proof -
  obtain bf1 where p1: "AddAll h bf0 pre = (bf1, None)" and r1: "AddAll h bf1 (item # post) = (bf, None)"
    using assms by (auto simp: AddAll_append split: prod.splits option.splits)
  obtain bf2 where a: "Add h bf1 item = (bf2, None)" and r2: "AddAll h bf2 post = (bf, None)"
    using r1 by (auto split: prod.splits option.splits)
  have f2: "bf_size bf2 = bf_size bf1" "bf_k bf2 = bf_k bf1"
    using Add_frame [OF a] by auto
  have f3: "bf_size bf = bf_size bf2" "bf_k bf = bf_k bf2"
      "\<And>p. bit_set (bitset bf2) p \<Longrightarrow> bit_set (bitset bf) p"
    using AddAll_frame [OF r2] by auto
  show ?thesis
  proof (cases "unat (bf_k bf) = 0")
    case True
    then show ?thesis by (simp add: Contains_def Contains_loop.simps)
  next
    case False
    then have k0: "0 < unat (bf_k bf1)" using f2 f3 by simp
    have sets: "bf_size bf1 \<noteq> 0 \<and> bit_set (bitset bf2) (bf_pos h (bf_size bf1) item j)"
      if "j < unat (bf_k bf1)" for j
      using Add_loop_sets [OF a [unfolded Add_def] _ that] by simp
    have sz: "bf_size bf \<noteq> 0" using sets [OF k0] f2 f3 by simp
    have "bit_set (bitset bf) (bf_pos h (bf_size bf) item j)" if "j < unat (bf_k bf)" for j
      using sets [of j] that f2 f3 by simp
    then show ?thesis
      unfolding Contains_def using Contains_loop_True [OF sz, of 0 h item] by simp
  qed
qed


lemma bf_pos_index:
  assumes "bf_wf bf"
  shows "unat (bf_pos h (bf_size bf) data j div 64) < length (bitset bf)"
proof -
  have "unat (bf_pos h (bf_size bf) data j) < unat (bf_size bf)"
    using assms by (simp add: bf_pos_def bf_wf_def unat_gt_0 unat_mod_distrib)
  then have "unat (bf_pos h (bf_size bf) data j) < 64 * length (bitset bf)"
    using assms by (simp add: bf_wf_def)
  then show ?thesis
    by (simp add: unat_div_distrib less_mult_imp_div_less mult.commute)
qed

lemma Add_loop_total: "bf_wf bf \<Longrightarrow> snd (Add_loop h data i bf) = None"
proof (induction h data i bf rule: Add_loop.induct)
  case (1 h data i bf)
  show ?case
  proof (cases "i < unat (bf_k bf)")
    case False
    then show ?thesis by (subst Add_loop.simps) simp
  next
    case k: True
    have sz: "bf_size bf \<noteq> 0" using "1.prems" by (simp add: bf_wf_def)
    let ?p = "bf_pos h (bf_size bf) data i"
    let ?ix = "unat (?p div 64)"
    let ?bf1 = "bf\<lparr>bitset := (bitset bf)[?ix := bitset bf ! ?ix OR push_bit (unat (?p mod 64)) 1]\<rparr>"
    note gp = bf_getPosition_Inr [OF sz, of h data i]
    have ix: "?ix < length (bitset bf)" by (rule bf_pos_index [OF "1.prems"])
    have wf1: "bf_wf ?bf1" using "1.prems" by (simp add: bf_wf_def)
    have "Add_loop h data i bf = Add_loop h data (Suc i) ?bf1"
      using k gp ix by (subst Add_loop.simps) simp
    then show ?thesis using "1.IH" [OF k gp ix wf1] by simp
  qed
qed

lemma Add_wf: "bf_wf bf \<Longrightarrow> Add h bf data = (bf', e) \<Longrightarrow> bf_wf bf' \<and> e = None"
  using Add_frame [of h bf data bf' e] Add_loop_total [of bf h data 0]
  by (simp add: Add_def bf_wf_def)

lemma AddAll_total: "bf_wf bf \<Longrightarrow> snd (AddAll h bf items) = None"
proof (induction items arbitrary: bf)
  case Nil
  then show ?case by simp
next
  case (Cons data items)
  obtain bf1 e1 where a: "Add h bf data = (bf1, e1)" by (cases "Add h bf data")
  from Add_wf [OF Cons.prems a] Cons.IH [of bf1] a show ?case by simp
qed

lemma NewBloomFilter_wf:
  assumes "NewBloomFilter obs ohc n p = Inr bf" and "bf_size bf \<noteq> 0"
    and "unat (bf_size bf) + 63 < 2 ^ 64"
  shows "bf_wf bf"
proof -
  let ?s = "obs n p"
  have bf: "bf_size bf = ?s" "length (bitset bf) = unat ((?s + 63) div 64)"
    using assms(1) by (auto simp: NewBloomFilter_def)
  have "unat (?s + 63) = unat ?s + 63"
    using assms(3) bf(1) by (simp add: unat_word_ariths)
  then have "length (bitset bf) = (unat ?s + 63) div 64"
    using bf(2) by (simp add: unat_div_distrib)
  then have "unat ?s \<le> 64 * length (bitset bf)"
    by simp
  then show ?thesis using assms(2) bf(1) by (simp add: bf_wf_def)
qed

text \<open>
  Claim C2. For every Bloom filter, every item and every sequence of \<^verbatim>\<open>Add\<close> calls in
  which the item is added (after any calls before it, followed by any further calls), once
  the calls have returned \<^verbatim>\<open>Contains(item)\<close> returns true: there are no false negatives.
  And on a filter built by \<^verbatim>\<open>NewBloomFilter\<close> whose size is not 0 (and at most
  \<open>2 ^ 64 - 64\<close>, so that \<open>size + 63\<close> does not wrap) the calls of \<^verbatim>\<open>Add\<close> always return:
  none panics.
\<close>

theorem bloom_no_false_negatives:
  "(AddAll h bf0 (pre @ item # post) = (bf, None) \<longrightarrow> Contains h bf item = Inr True) \<and>
   (NewBloomFilter obs ohc n p = Inr bf0 \<and> bf_size bf0 \<noteq> 0 \<and> unat (bf_size bf0) + 63 < 2 ^ 64 \<longrightarrow>
      snd (AddAll h bf0 items) = None)"
  using AddAll_contains [of h bf0 pre item post bf]
    AddAll_total [OF NewBloomFilter_wf [of obs ohc n p bf0], of h items]
  by blast

theorem bloom_no_false_negatives_witness:
  "NewBloomFilter (\<lambda>n p. 128) (\<lambda>s n. 2) 100 (1 / 100) =
     Inr \<lparr>bitset = [0, 0], bf_size = 128, bf_k = 2\<rparr> \<and>
   snd (AddAll demo_hash64 \<lparr>bitset = [0, 0], bf_size = 128, bf_k = 2\<rparr> [''a'', ''b'', ''c'']) = None \<and>
   Contains demo_hash64
     (fst (AddAll demo_hash64 \<lparr>bitset = [0, 0], bf_size = 128, bf_k = 2\<rparr> [''a'', ''b'', ''c'']))
     ''b'' = Inr True"
proof -
  let ?bf0 = "\<lparr>bitset = [0, 0], bf_size = 128 :: u64, bf_k = 2 :: u64\<rparr>"
  let ?run = "AddAll demo_hash64 ?bf0 [''a'', ''b'', ''c'']"
  have new: "NewBloomFilter (\<lambda>n p. 128) (\<lambda>s n. 2) 100 (1 / 100) = Inr ?bf0"
    by code_simp
  have sz: "bf_size ?bf0 \<noteq> 0" "unat (bf_size ?bf0) + 63 < 2 ^ 64"
    by simp_all
  note inst = bloom_no_false_negatives [of demo_hash64 ?bf0 "[''a'']" "''b''" "[''c'']"
      "fst ?run" "\<lambda>n p. 128" "\<lambda>s n. 2" 100 "1 / 100" "[''a'', ''b'', ''c'']"]
  have total: "snd ?run = None"
    using inst new sz by blast
  then have "AddAll demo_hash64 ?bf0 ([''a''] @ ''b'' # [''c'']) = (fst ?run, None)"
    by (simp add: prod_eq_iff)
  then have "Contains demo_hash64 (fst ?run) ''b'' = Inr True"
    using inst by blast
  with new total show ?thesis by blast
qed

text \<open>
  Claim C9. Through every sequence of \<^verbatim>\<open>Add\<close> and \<^verbatim>\<open>Contains\<close> calls on a filter, the
  bit array keeps its length, the size and the number of hash functions stay as they are,
  and every bit that is set stays set; a sequence without a call of \<^verbatim>\<open>Add\<close> leaves the
  filter as it is (only \<^verbatim>\<open>Add\<close> changes it).
\<close>

theorem bloom_bits_monotone:
  "length (bitset (bf_run h bf calls)) = length (bitset bf) \<and>
   bf_size (bf_run h bf calls) = bf_size bf \<and> bf_k (bf_run h bf calls) = bf_k bf \<and>
   (\<forall>j n. j < length (bitset bf) \<longrightarrow> bit (bitset bf ! j) n \<longrightarrow>
      bit (bitset (bf_run h bf calls) ! j) n) \<and>
   ((\<forall>c \<in> set calls. \<not> is_CallAdd c) \<longrightarrow> bf_run h bf calls = bf)"
proof (induction calls arbitrary: bf)
  case Nil
  then show ?case by simp
next
  case (Cons c calls)
  show ?case
  proof (cases c)
    case (CallAdd data)
    obtain bf1 e1 where a: "Add h bf data = (bf1, e1)" by (cases "Add h bf data")
    from Add_frame [OF a] Cons.IH [of bf1] a CallAdd show ?thesis by simp
  next
    case (CallContains data)
    with Cons.IH [of bf] show ?thesis by simp
  qed
qed

theorem bloom_bits_monotone_witness:
  "bit (bitset \<lparr>bitset = [1, 0], bf_size = 128, bf_k = 2\<rparr> ! 0) 0 \<and>
   bit (bitset (bf_run demo_hash64 \<lparr>bitset = [1, 0], bf_size = 128, bf_k = 2\<rparr>
      [CallAdd ''a'', CallContains ''b'', CallAdd ''c'']) ! 0) 0 \<and>
   length (bitset (bf_run demo_hash64 \<lparr>bitset = [1, 0], bf_size = 128, bf_k = 2\<rparr>
      [CallAdd ''a'', CallContains ''b'', CallAdd ''c''])) = 2 \<and>
   bf_run demo_hash64 \<lparr>bitset = [1, 0], bf_size = 128, bf_k = 2\<rparr>
      [CallContains ''a'', CallContains ''b''] = \<lparr>bitset = [1, 0], bf_size = 128, bf_k = 2\<rparr>"
proof -
  let ?bf = "\<lparr>bitset = [1, 0], bf_size = 128 :: u64, bf_k = 2 :: u64\<rparr>"
  have b: "bit (bitset ?bf ! 0) 0" by simp
  have l: "0 < length (bitset ?bf)" "length (bitset ?bf) = 2" by simp_all
  note t1 = bloom_bits_monotone [of demo_hash64 ?bf "[CallAdd ''a'', CallContains ''b'', CallAdd ''c'']"]
  note t2 = bloom_bits_monotone [of demo_hash64 ?bf "[CallContains ''a'', CallContains ''b'']"]
  have c: "\<forall>c \<in> set [CallContains ''a'', CallContains ''b'']. \<not> is_CallAdd c" by simp
  have "bit (bitset (bf_run demo_hash64 ?bf
      [CallAdd ''a'', CallContains ''b'', CallAdd ''c'']) ! 0) 0"
    using t1 b l(1) by blast
  moreover have "length (bitset (bf_run demo_hash64 ?bf
      [CallAdd ''a'', CallContains ''b'', CallAdd ''c''])) = 2"
    using t1 l(2) by simp
  moreover have "bf_run demo_hash64 ?bf [CallContains ''a'', CallContains ''b''] = ?bf"
    using t2 c by blast
  ultimately show ?thesis using b by blast
qed

text \<open>
  Claim C6, as the code has it. \<^verbatim>\<open>NewBloomFilter\<close> validates nothing and has no error
  result: for every number of expected elements and every rate (also a number that is 0 or
  negative, and a rate outside the open interval from 0 to 1) it returns a filter whose
  size is what \<^verbatim>\<open>optimalBitSize\<close> computes, whose number of hash functions is what
  \<^verbatim>\<open>optimalHashCount\<close> computes, and whose bit set has \<open>(size + 63) / 64\<close> words, all 0.
\<close>

theorem NewBloomFilter_validates_nothing:
  "\<exists>bf. NewBloomFilter obs ohc n p = Inr bf \<and> bf_size bf = obs n p \<and>
     bf_k bf = ohc (obs n p) n \<and> length (bitset bf) = unat ((obs n p + 63) div 64) \<and>
     (\<forall>w \<in> set (bitset bf). w = 0)"
  by (simp add: NewBloomFilter_def)

theorem NewBloomFilter_validates_nothing_witness:
  "\<exists>bf. NewBloomFilter (\<lambda>n p. 128) (\<lambda>s n. 2) (- 5) 7 = Inr bf \<and> bf_size bf = 128 \<and>
     bf_k bf = 2 \<and> length (bitset bf) = 2"
proof -
  have "unat (((128 :: u64) + 63) div 64) = 2" by simp
  then show ?thesis
    using NewBloomFilter_validates_nothing [of "\<lambda>n p. 128" "\<lambda>s n. 2" "- 5" 7] by auto
qed

text \<open>
  The claim as stated fails: with one expected element and the rate 1, which is outside the
  open interval, \<^verbatim>\<open>NewBloomFilter\<close> returns a filter of size 0 with one hash function and
  an empty bit set, not a \<open>ConfigurationError\<close>. (The filter is not usable: \<^verbatim>\<open>Add\<close>
  panics on it with a division by zero.)
\<close>

theorem NewBloomFilter_ConfigurationError_counterexample:
  "NewBloomFilter optimalBitSize optimalHashCount 1 1 =
     Inr \<lparr>bitset = [], bf_size = 0, bf_k = 1\<rparr> \<and>
   Add demo_hash64 \<lparr>bitset = [], bf_size = 0, bf_k = 1\<rparr> ''x'' =
     (\<lparr>bitset = [], bf_size = 0, bf_k = 1\<rparr>, Some DivideByZero)"
proof -
  have "optimalBitSize 1 1 = 0"
    by (simp add: optimalBitSize_def)
  moreover have "optimalHashCount 0 1 = 1"
    by (simp add: optimalHashCount_def)
  ultimately have "NewBloomFilter optimalBitSize optimalHashCount 1 1 =
     Inr \<lparr>bitset = [], bf_size = 0, bf_k = 1\<rparr>"
    by (simp add: NewBloomFilter_def)
  moreover have "Add demo_hash64 \<lparr>bitset = [], bf_size = 0, bf_k = 1\<rparr> ''x'' =
     (\<lparr>bitset = [], bf_size = 0, bf_k = 1\<rparr>, Some DivideByZero)"
    by code_simp
  ultimately show ?thesis by blast
qed

section \<open>Properties of MinHash\<close>

lemma Signature_seeds_ok:
  "i + length sds \<le> length sg \<Longrightarrow>
   \<exists>res. Signature_seeds h s sds i sg = Inr res \<and> length res = length sg \<and>
     (\<forall>j < length sg. res ! j =
        (if i \<le> j \<and> j < i + length sds then min (sg ! j) (h s (sds ! (j - i))) else sg ! j))"
proof (induction sds arbitrary: i sg)
  case Nil
  then show ?case by auto
next
  case (Cons seed rest)
  let ?sg1 = "if h s seed < sg ! i then sg[i := h s seed] else sg"
  have i: "i < length sg" using Cons.prems by simp
  have len1: "length ?sg1 = length sg" by simp
  have "Suc i + length rest \<le> length ?sg1" using Cons.prems by simp
  from Cons.IH [OF this]
  obtain res where res: "Signature_seeds h s rest (Suc i) ?sg1 = Inr res" "length res = length sg"
    and nth: "\<And>j. j < length sg \<Longrightarrow> res ! j =
        (if Suc i \<le> j \<and> j < Suc i + length rest then min (?sg1 ! j) (h s (rest ! (j - Suc i)))
         else ?sg1 ! j)"
    unfolding len1 by blast
  have "res ! j =
        (if i \<le> j \<and> j < i + length (seed # rest)
         then min (sg ! j) (h s ((seed # rest) ! (j - i))) else sg ! j)"
    if "j < length sg" for j
  proof (cases "j = i")
    case True
    then show ?thesis using nth [OF that] i by (auto simp: min_def)
  next
    case False
    then have "?sg1 ! j = sg ! j" by simp
    moreover have "(seed # rest) ! (j - i) = rest ! (j - Suc i)" if "Suc i \<le> j"
      using that by (simp add: Suc_diff_le)
    ultimately show ?thesis using nth [OF that] False by auto
  qed
  then show ?case using res i by simp
qed

lemma Signature_seeds_fails:
  "i \<le> length sg \<Longrightarrow> length sg < i + length sds \<Longrightarrow>
   Signature_seeds h s sds i sg = Inl IndexOutOfRange"
  by (induction sds arbitrary: i sg) auto

lemma Min_insert_min:
  "finite A \<Longrightarrow> Min (insert (min a b) A) = Min (insert a (insert b A))"
  for a :: "'a :: linorder"
  by (cases "A = {}") (simp_all add: min.assoc)

lemma Signature_strings_ok:
  "length sds \<le> length sg \<Longrightarrow>
   \<exists>res. Signature_strings h sds xs sg = Inr res \<and> length res = length sg \<and>
     (\<forall>j < length sg. res ! j =
        (if j < length sds then Min (insert (sg ! j) ((\<lambda>s. h s (sds ! j)) ` set xs)) else sg ! j))"
proof (induction xs arbitrary: sg)
  case Nil
  then show ?case by simp
next
  case (Cons s xs)
  from Signature_seeds_ok [of 0 sds sg h s] Cons.prems
  obtain sg1 where s1: "Signature_seeds h s sds 0 sg = Inr sg1" "length sg1 = length sg"
    and n1: "\<And>j. j < length sg \<Longrightarrow>
        sg1 ! j = (if j < length sds then min (sg ! j) (h s (sds ! j)) else sg ! j)"
    by auto
  from Cons.IH [of sg1] Cons.prems s1(2)
  obtain res where r: "Signature_strings h sds xs sg1 = Inr res" "length res = length sg"
    and n2: "\<And>j. j < length sg \<Longrightarrow> res ! j =
        (if j < length sds then Min (insert (sg1 ! j) ((\<lambda>s. h s (sds ! j)) ` set xs)) else sg1 ! j)"
    by auto
  have "res ! j =
        (if j < length sds then Min (insert (sg ! j) ((\<lambda>s. h s (sds ! j)) ` set (s # xs)))
         else sg ! j)"
    if "j < length sg" for j
    using n2 [OF that] n1 [OF that] by (simp add: Min_insert_min)
  then show ?case using s1 r by simp
qed

lemma Signature_strings_fails:
  "length sg < length sds \<Longrightarrow> xs \<noteq> [] \<Longrightarrow> Signature_strings h sds xs sg = Inl IndexOutOfRange"
  by (cases xs) (simp_all add: Signature_seeds_fails)



lemma Signature_strings_set:
  assumes "set xs = set ys"
  shows "Signature_strings h sds xs sg = Signature_strings h sds ys sg"
proof (cases "length sds \<le> length sg")
  case True
  from Signature_strings_ok [OF True, of h xs]
  obtain rx where rx: "Signature_strings h sds xs sg = Inr rx" "length rx = length sg"
    and nx: "\<And>j. j < length sg \<Longrightarrow> rx ! j =
        (if j < length sds then Min (insert (sg ! j) ((\<lambda>s. h s (sds ! j)) ` set xs)) else sg ! j)"
    by blast
  from Signature_strings_ok [OF True, of h ys]
  obtain ry where ry: "Signature_strings h sds ys sg = Inr ry" "length ry = length sg"
    and ny: "\<And>j. j < length sg \<Longrightarrow> ry ! j =
        (if j < length sds then Min (insert (sg ! j) ((\<lambda>s. h s (sds ! j)) ` set ys)) else sg ! j)"
    by blast
  have "rx = ry"
  proof (rule nth_equalityI)
    show "length rx = length ry" using rx(2) ry(2) by simp
  next
    fix j assume "j < length rx"
    then have j: "j < length sg" using rx(2) by simp
    show "rx ! j = ry ! j"
      unfolding nx [OF j] ny [OF j] assms ..
  qed
  then show ?thesis using rx(1) ry(1) by simp
next
  case False
  then have lt: "length sg < length sds" by simp
  show ?thesis
  proof (cases "xs = []")
    case True
    then have "ys = []" using assms by simp
    with True show ?thesis by simp
  next
    case False
    then have "ys \<noteq> []" using assms by auto
    then show ?thesis
      using False lt by (simp add: Signature_strings_fails)
  qed
qed

text \<open>
  Claim C10. For every MinHash value and every two lists of strings with the same set of
  elements (whatever the order and the repetitions), \<^verbatim>\<open>Signature\<close> gives the same result:
  the same signature, or the same panic.
\<close>

theorem Signature_depends_on_set:
  "set xs = set ys \<Longrightarrow> Signature h mh xs = Signature h mh ys"
  by (simp add: Signature_def Signature_strings_set [of xs ys])


theorem Signature_depends_on_set_witness:
  "set [''a b'', ''b c'', ''a b''] = set [''b c'', ''a b''] \<and>
   Signature demo_hash32 \<lparr>numHashes = 3, seeds = [1, 2, 3]\<rparr> [''a b'', ''b c'', ''a b''] =
   Signature demo_hash32 \<lparr>numHashes = 3, seeds = [1, 2, 3]\<rparr> [''b c'', ''a b'']"
proof (rule conjI)
  show s: "set [''a b'', ''b c'', ''a b''] = set [''b c'', ''a b'']"
    by (simp add: insert_commute)
  show "Signature demo_hash32 \<lparr>numHashes = 3, seeds = [1, 2, 3]\<rparr> [''a b'', ''b c'', ''a b''] =
   Signature demo_hash32 \<lparr>numHashes = 3, seeds = [1, 2, 3]\<rparr> [''b c'', ''a b'']"
    by (rule Signature_depends_on_set [OF s])
qed

lemma matches_loop_count:
  "matches_loop sig1 sig2 n i m = m + card {j. i \<le> j \<and> j < n \<and> sig1 ! j = sig2 ! j}"
proof (induction sig1 sig2 n i m rule: matches_loop.induct)
  case (1 sig1 sig2 n i m)
  show ?case
  proof (cases "i < n")
    case False
    then have "{j. i \<le> j \<and> j < n \<and> sig1 ! j = sig2 ! j} = {}" by auto
    with False show ?thesis by (subst matches_loop.simps) simp
  next
    case True
    let ?A = "{j. Suc i \<le> j \<and> j < n \<and> sig1 ! j = sig2 ! j}"
    have fin: "finite ?A" by simp
    have split: "{j. i \<le> j \<and> j < n \<and> sig1 ! j = sig2 ! j} =
        (if sig1 ! i = sig2 ! i then insert i ?A else ?A)"
      using True by (auto simp: Suc_le_eq le_less)
    have "i \<notin> ?A" by simp
    then have "card {j. i \<le> j \<and> j < n \<and> sig1 ! j = sig2 ! j} =
        (if sig1 ! i = sig2 ! i then Suc (card ?A) else card ?A)"
      unfolding split using fin by simp
    then show ?thesis
      using True "1.IH" [OF True] by (subst matches_loop.simps) simp
  qed
qed

lemma equal_positions_le: "card {j. j < n \<and> P j} \<le> n"
proof -
  have "card {j. j < n \<and> P j} \<le> card {..<n}"
    by (rule card_mono) auto
  then show ?thesis by simp
qed

text \<open>
  Claim C7, as the code has it. \<^verbatim>\<open>Similarity\<close> never fails. When both signatures have the
  length \<open>numHashes\<close>, and this is not 0, it returns the number of positions where they are
  equal divided by \<open>numHashes\<close>, a value from 0 to 1. When one of the lengths differs from
  \<open>numHashes\<close> it returns \<open>0.0\<close>, not a \<open>ShapeMismatchError\<close>.
\<close>

theorem Similarity_fraction_or_zero:
  "(int (length sig1) = numHashes mh \<and> int (length sig2) = numHashes mh \<and> 0 < numHashes mh \<longrightarrow>
      Similarity mh sig1 sig2 =
        Inr (Num (real (card {j. j < length sig1 \<and> sig1 ! j = sig2 ! j}) / real (length sig1))) \<and>
      0 \<le> real (card {j. j < length sig1 \<and> sig1 ! j = sig2 ! j}) / real (length sig1) \<and>
      real (card {j. j < length sig1 \<and> sig1 ! j = sig2 ! j}) / real (length sig1) \<le> 1) \<and>
   (int (length sig1) \<noteq> numHashes mh \<or> int (length sig2) \<noteq> numHashes mh \<longrightarrow>
      Similarity mh sig1 sig2 = Inr (Num 0))"
proof (intro conjI impI)
  assume a: "int (length sig1) = numHashes mh \<and> int (length sig2) = numHashes mh \<and> 0 < numHashes mh"
  then have n: "nat (numHashes mh) = length sig1" and pos: "0 < length sig1" by auto
  have "matches_loop sig1 sig2 (length sig1) 0 0 = card {j. j < length sig1 \<and> sig1 ! j = sig2 ! j}"
    by (simp add: matches_loop_count)
  then show "Similarity mh sig1 sig2 =
        Inr (Num (real (card {j. j < length sig1 \<and> sig1 ! j = sig2 ! j}) / real (length sig1)))"
    using a n by (simp add: Similarity_def)
  show "0 \<le> real (card {j. j < length sig1 \<and> sig1 ! j = sig2 ! j}) / real (length sig1)"
    by simp
  show "real (card {j. j < length sig1 \<and> sig1 ! j = sig2 ! j}) / real (length sig1) \<le> 1"
    using equal_positions_le [of "length sig1" "\<lambda>j. sig1 ! j = sig2 ! j"] pos by simp
next
  assume "int (length sig1) \<noteq> numHashes mh \<or> int (length sig2) \<noteq> numHashes mh"
  then show "Similarity mh sig1 sig2 = Inr (Num 0)"
    by (auto simp: Similarity_def)
qed

theorem Similarity_fraction_or_zero_witness:
  "Similarity \<lparr>numHashes = 2, seeds = [1, 2]\<rparr> [7, 8] [7, 9] =
     Inr (Num (real (card {j. j < length [7, 8 :: u32] \<and> [7, 8 :: u32] ! j = [7, 9] ! j}) /
               real (length [7, 8 :: u32]))) \<and>
   Similarity \<lparr>numHashes = 2, seeds = [1, 2]\<rparr> [7, 8, 9] [7, 9] = Inr (Num 0)"
proof -
  let ?mh = "\<lparr>numHashes = 2, seeds = [1, 2 :: u32]\<rparr>"
  have a: "int (length [7, 8 :: u32]) = numHashes ?mh \<and> int (length [7, 9 :: u32]) = numHashes ?mh \<and>
      0 < numHashes ?mh"
    by simp
  have b: "int (length [7, 8, 9 :: u32]) \<noteq> numHashes ?mh \<or> int (length [7, 9 :: u32]) \<noteq> numHashes ?mh"
    by simp
  from a Similarity_fraction_or_zero [of "[7, 8]" ?mh "[7, 9]"]
  have 1: "Similarity ?mh [7, 8] [7, 9] =
     Inr (Num (real (card {j. j < length [7, 8 :: u32] \<and> [7, 8 :: u32] ! j = [7, 9] ! j}) /
               real (length [7, 8 :: u32])))"
    by blast
  from b Similarity_fraction_or_zero [of "[7, 8, 9]" ?mh "[7, 9]"]
  have 2: "Similarity ?mh [7, 8, 9] [7, 9] = Inr (Num 0)"
    by blast
  from 1 2 show ?thesis by (rule conjI)
qed

text \<open>
  The claim as stated fails: for signatures of lengths 2 and 1 (with two hash functions)
  \<^verbatim>\<open>Similarity\<close> returns \<open>0.0\<close> and no error; and with no hash function and two empty
  signatures it returns the quotient \<open>0.0 / 0.0\<close>, which is no value from 0 to 1.
\<close>

theorem Similarity_ShapeMismatch_counterexample:
  "Similarity \<lparr>numHashes = 2, seeds = [1, 2]\<rparr> [7, 8] [7] = Inr (Num 0) \<and>
   Similarity \<lparr>numHashes = 2, seeds = [1, 2]\<rparr> [7, 8] [7] \<noteq> Inl ShapeMismatchError \<and>
   Similarity \<lparr>numHashes = 0, seeds = []\<rparr> [] [] = Inr NaN"
  by (simp add: Similarity_def)

section \<open>Properties of the top paths\<close>

lemma prefix_max_swap:
  assumes "prefix_max i xs" and "i < j" and "j < length xs"
  shows "prefix_max i (xs[i := xs ! j, j := xs ! i])"
  unfolding prefix_max_def
proof (intro allI impI)
  fix a b
  assume a: "a < i" and ab: "a < b" and b: "b < length (xs[i := xs ! j, j := xs ! i])"
  have bl: "b < length xs" using b by simp
  have il: "i < length xs" using assms(2,3) by simp
  have xa: "xs[i := xs ! j, j := xs ! i] ! a = xs ! a"
    using a assms(2) by simp
  have "\<exists>c. a < c \<and> c < length xs \<and> xs[i := xs ! j, j := xs ! i] ! b = xs ! c"
  proof (cases "b = j")
    case True
    then show ?thesis using a il assms(3) by (intro exI [of _ i]) simp
  next
    case nj: False
    show ?thesis
    proof (cases "b = i")
      case True
      then show ?thesis using a assms(2,3) nj il by (intro exI [of _ j]) simp
    next
      case False
      then show ?thesis using nj ab bl by (intro exI [of _ b]) simp
    qed
  qed
  then obtain c where "a < c" "c < length xs" "xs[i := xs ! j, j := xs ! i] ! b = xs ! c"
    by blast
  then show "pc_Count (xs[i := xs ! j, j := xs ! i] ! b) \<le> pc_Count (xs[i := xs ! j, j := xs ! i] ! a)"
    using assms(1) a xa by (simp add: prefix_max_def)
qed

lemma sort_inner_props:
  "i < j \<Longrightarrow> i < length xs \<Longrightarrow> prefix_max i xs \<Longrightarrow>
   (\<And>k. i < k \<Longrightarrow> k < j \<Longrightarrow> k < length xs \<Longrightarrow> pc_Count (xs ! k) \<le> pc_Count (xs ! i)) \<Longrightarrow>
   mset (sort_inner i j xs) = mset xs \<and> prefix_max (Suc i) (sort_inner i j xs)"
proof (induction i j xs rule: sort_inner.induct)
  case (1 i j xs)
  show ?case
  proof (cases "j < length xs")
    case False
    have "prefix_max (Suc i) xs"
      unfolding prefix_max_def
    proof (intro allI impI)
      fix a b assume "a < Suc i" "a < b" "b < length xs"
      then show "pc_Count (xs ! b) \<le> pc_Count (xs ! a)"
        using "1.prems"(3) "1.prems"(4) [of b] False
        by (cases "a = i") (auto simp: prefix_max_def)
    qed
    then show ?thesis using False by (subst (1 2) sort_inner.simps) simp
  next
    case j: True
    let ?xs1 = "if pc_Count (xs ! i) < pc_Count (xs ! j) then xs[i := xs ! j, j := xs ! i] else xs"
    have step: "sort_inner i j xs = sort_inner i (Suc j) ?xs1"
      using j by (subst sort_inner.simps) simp
    have l1: "length ?xs1 = length xs" by simp
    have m1: "mset ?xs1 = mset xs"
      using mset_swap [of j xs i] j "1.prems"(2) by simp
    have p1: "prefix_max i ?xs1"
      using prefix_max_swap [OF "1.prems"(3,1) j] "1.prems"(3) by simp
    have k1: "pc_Count (?xs1 ! k) \<le> pc_Count (?xs1 ! i)"
      if "i < k" "k < Suc j" "k < length ?xs1" for k
    proof (cases "pc_Count (xs ! i) < pc_Count (xs ! j)")
      case True
      show ?thesis
      proof (cases "k = j")
        case kj: True
        then show ?thesis using True "1.prems"(1,2) j by simp
      next
        case False
        then have "k < j" using that by simp
        then have "pc_Count (xs ! k) \<le> pc_Count (xs ! i)"
          using "1.prems"(4) [of k] that j by simp
        then show ?thesis using True that \<open>k < j\<close> "1.prems"(1,2) j by simp
      qed
    next
      case False
      show ?thesis
      proof (cases "k = j")
        case True
        then show ?thesis using False by simp
      next
        case kj: False
        then have "k < j" using that by simp
        then show ?thesis using "1.prems"(4) [of k] that j False by simp
      qed
    qed
    have "mset (sort_inner i (Suc j) ?xs1) = mset ?xs1 \<and>
        prefix_max (Suc i) (sort_inner i (Suc j) ?xs1)"
      by (rule "1.IH" [OF j]) (use "1.prems"(1,2) p1 k1 in auto)
    then show ?thesis using step m1 by simp
  qed
qed

lemma sort_outer_props:
  "prefix_max i xs \<Longrightarrow>
   mset (sort_outer i xs) = mset xs \<and>
   prefix_max (length (sort_outer i xs)) (sort_outer i xs)"
proof (induction i xs rule: sort_outer.induct)
  case (1 i xs)
  show ?case
  proof (cases "i < length xs")
    case False
    then have "prefix_max (length xs) xs"
      using "1.prems" by (auto simp: prefix_max_def)
    then show ?thesis using False by (subst (1 2 3) sort_outer.simps) simp
  next
    case True
    have inner: "mset (sort_inner i (Suc i) xs) = mset xs \<and>
        prefix_max (Suc i) (sort_inner i (Suc i) xs)"
      by (rule sort_inner_props) (use True "1.prems" in auto)
    from "1.IH" [OF True] inner
    have "mset (sort_outer (Suc i) (sort_inner i (Suc i) xs)) = mset xs \<and>
        prefix_max (length (sort_outer (Suc i) (sort_inner i (Suc i) xs)))
          (sort_outer (Suc i) (sort_inner i (Suc i) xs))"
      by simp
    moreover have "sort_outer i xs = sort_outer (Suc i) (sort_inner i (Suc i) xs)"
      using True by (subst sort_outer.simps) simp
    ultimately show ?thesis by simp
  qed
qed

lemma sort_outer_sorted:
  "mset (sort_outer 0 xs) = mset xs \<and>
   sorted_wrt (\<lambda>a b. pc_Count b \<le> pc_Count a) (sort_outer 0 xs)"
proof -
  have "prefix_max 0 xs" by (simp add: prefix_max_def)
  from sort_outer_props [OF this]
  show ?thesis by (auto simp: sorted_wrt_iff_nth_less prefix_max_def)
qed


text \<open>
  Claim C4, as the code has it. For every list of known paths and every \<open>n\<close> that is not
  negative, \<^verbatim>\<open>GetTopPaths\<close> returns the first \<open>n\<close> elements (all of them when there are
  fewer) of a permutation of the known paths that is in descending order of estimate: the
  \<open>n\<close> paths with the highest estimates, highest first. The order among paths with equal
  estimates is the one the exchange sort leaves, which need not be the order of the input.
  For a negative \<open>n\<close> the call panics.
\<close>

theorem GetTopPaths_descending_top_n:
  "(n < 0 \<longrightarrow> GetTopPaths estimate paths n = Inl MakeSliceOutOfRange) \<and>
   (0 \<le> n \<longrightarrow>
      (\<exists>perm. mset perm = mset paths \<and>
         sorted_wrt (\<lambda>a b. estimate b \<le> estimate a) perm \<and>
         GetTopPaths estimate paths n = Inr (take (nat n) perm)))"
proof (intro conjI impI)
  assume "n < 0"
  then show "GetTopPaths estimate paths n = Inl MakeSliceOutOfRange"
    by (simp add: GetTopPaths_def)
next
  assume n: "0 \<le> n"
  let ?mk = "\<lambda>path. \<lparr>pc_Path = path, pc_Count = estimate path\<rparr>"
  let ?srt = "sort_outer 0 (map ?mk paths)"
  let ?perm = "map pc_Path ?srt"
  have m: "mset ?srt = mset (map ?mk paths)"
    and s: "sorted_wrt (\<lambda>a b. pc_Count b \<le> pc_Count a) ?srt"
    using sort_outer_sorted [of "map ?mk paths"] by simp_all
  have "mset ?perm = image_mset pc_Path (mset ?srt)"
    by simp
  also have "\<dots> = image_mset pc_Path (mset (map ?mk paths))"
    by (simp only: m)
  also have "\<dots> = mset paths"
    by (simp add: image_mset.compositionality comp_def)
  finally have 1: "mset ?perm = mset paths" .
  have "set ?srt = set (map ?mk paths)"
    using m by (rule mset_eq_setD)
  then have cnt: "pc_Count x = estimate (pc_Path x)" if "x \<in> set ?srt" for x
    using that by auto
  have "sorted_wrt (\<lambda>a b. estimate (pc_Path b) \<le> estimate (pc_Path a)) ?srt"
    by (rule sorted_wrt_mono_rel [OF _ s]) (simp add: cnt)
  then have 2: "sorted_wrt (\<lambda>a b. estimate b \<le> estimate a) ?perm"
    by (simp add: sorted_wrt_map)
  have 3: "GetTopPaths estimate paths n = Inr (take (nat n) ?perm)"
    using n by (simp add: GetTopPaths_def take_map)
  from 1 2 3 show "\<exists>perm. mset perm = mset paths \<and>
         sorted_wrt (\<lambda>a b. estimate b \<le> estimate a) perm \<and>
         GetTopPaths estimate paths n = Inr (take (nat n) perm)"
    by blast
qed

theorem GetTopPaths_descending_top_n_witness:
  "(0 :: int) \<le> 1 \<and>
   (\<exists>perm. mset perm = mset [''/api/users'', ''/api/orders''] \<and>
      sorted_wrt (\<lambda>a b. demo_estimate b \<le> demo_estimate a) perm \<and>
      GetTopPaths demo_estimate [''/api/users'', ''/api/orders''] 1 = Inr (take (nat 1) perm))"
proof -
  have n: "(0 :: int) \<le> 1" by simp
  from n GetTopPaths_descending_top_n [of 1 demo_estimate "[''/api/users'', ''/api/orders'']"]
  show ?thesis by blast
qed

text \<open>
  The claim as stated fails: the sort is not stable. With the estimates 1, 1 and 2 for
  \<open>''/api/users''\<close>, \<open>''/api/login''\<close> and \<open>''/api/orders''\<close>, in this order, the first
  exchange puts \<open>''/api/users''\<close> behind \<open>''/api/login''\<close>, which has the same estimate
  and comes later in the input.
\<close>

theorem GetTopPaths_stable_counterexample:
  "GetTopPaths demo_estimate [''/api/users'', ''/api/login'', ''/api/orders''] 3 =
     Inr [''/api/orders'', ''/api/login'', ''/api/users''] \<and>
   demo_estimate ''/api/users'' = demo_estimate ''/api/login''"
  by code_simp

section \<open>Properties of processing an entry\<close>

text \<open>
  Claim C8. For every analyzer state and every entry whose key the deduplication filter
  reports as present, \<^verbatim>\<open>ProcessLogEntry\<close> returns at once and the analyzer is as it was:
  the filter, the path counter, both cardinality counters, the MinHash, the LSH index,
  the stored error entries and the next error id are all unchanged (the whole record is
  equal).
\<close>

theorem ProcessLogEntry_duplicate_unchanged:
  "deduper_Test pk (deduper la) (entryKey pk entry) \<Longrightarrow> ProcessLogEntry pk la entry = la"
  by (simp add: ProcessLogEntry_def)

theorem ProcessLogEntry_duplicate_unchanged_witness:
  "deduper_Test demo_packages
     (deduper \<lparr>deduper = [''2023-04-15T10:20:30Z-192.168.1.1-user123-/api/items-200''],
        pathCounter = [(''/api/items'', 1 :: int)], userCounter = [''user123''],
        sessionCounter = [''session456''], errorMinhash = [] :: string list,
        errorLSH = [] :: (int \<times> string list) list,
        errorMessages = Map.empty, nextErrorID = 0\<rparr>)
     (entryKey demo_packages
        \<lparr>Timestamp = ''2023-04-15T10:20:30Z'', IP = ''192.168.1.1'', UserID = ''user123'',
         SessionID = ''session789'', Path = ''/api/items'', Status = 200,
         Message = ''Request successful''\<rparr>) \<and>
   ProcessLogEntry demo_packages
     \<lparr>deduper = [''2023-04-15T10:20:30Z-192.168.1.1-user123-/api/items-200''],
        pathCounter = [(''/api/items'', 1 :: int)], userCounter = [''user123''],
        sessionCounter = [''session456''], errorMinhash = [] :: string list,
        errorLSH = [] :: (int \<times> string list) list,
        errorMessages = Map.empty, nextErrorID = 0\<rparr>
     \<lparr>Timestamp = ''2023-04-15T10:20:30Z'', IP = ''192.168.1.1'', UserID = ''user123'',
         SessionID = ''session789'', Path = ''/api/items'', Status = 200,
         Message = ''Request successful''\<rparr> =
     \<lparr>deduper = [''2023-04-15T10:20:30Z-192.168.1.1-user123-/api/items-200''],
        pathCounter = [(''/api/items'', 1 :: int)], userCounter = [''user123''],
        sessionCounter = [''session456''], errorMinhash = [] :: string list,
        errorLSH = [] :: (int \<times> string list) list,
        errorMessages = Map.empty, nextErrorID = 0\<rparr>"
proof -
  let ?la = "\<lparr>deduper = [''2023-04-15T10:20:30Z-192.168.1.1-user123-/api/items-200''],
        pathCounter = [(''/api/items'', 1 :: int)], userCounter = [''user123''],
        sessionCounter = [''session456''], errorMinhash = [] :: string list,
        errorLSH = [] :: (int \<times> string list) list,
        errorMessages = Map.empty, nextErrorID = 0\<rparr>"
  let ?e = "\<lparr>Timestamp = ''2023-04-15T10:20:30Z'', IP = ''192.168.1.1'', UserID = ''user123'',
         SessionID = ''session789'', Path = ''/api/items'', Status = 200,
         Message = ''Request successful''\<rparr>"
  have k: "entryKey demo_packages ?e = ''2023-04-15T10:20:30Z-192.168.1.1-user123-/api/items-200''"
    by code_simp
  have t: "deduper_Test demo_packages (deduper ?la) (entryKey demo_packages ?e)"
    unfolding k by (simp add: demo_packages_def)
  from t ProcessLogEntry_duplicate_unchanged [OF t] show ?thesis by (rule conjI)
qed

section \<open>Properties of the similarity search\<close>

text \<open>
  With a threshold above 0 the placeholder similarity \<open>0.0\<close> passes for no candidate:
  whenever \<^verbatim>\<open>LSH.FindSimilar\<close> returns, its result is empty, and so is the result of
  \<^verbatim>\<open>DocumentSet.FindSimilar\<close>.
\<close>

lemma LSH_FindSimilar_placeholder:
  "0 < threshold \<Longrightarrow> LSH_FindSimilar h l shingles threshold = Inr similarIDs \<Longrightarrow> similarIDs = []"
  by (auto simp: LSH_FindSimilar_def split: sum.splits)

lemma FindSimilar_placeholder:
  "0 < threshold \<Longrightarrow> FindSimilar h ds docID threshold = Inr similar \<Longrightarrow> similar = []"
  by (auto simp: FindSimilar_def split: option.splits sum.splits
      dest: LSH_FindSimilar_placeholder)

text \<open>
  Claim C3 does not hold of the code. Two documents with the same shingles (they share all
  of their 3-word shingles) are added to a document set with 4 hash functions in 2 bands.
  The query for the documents similar to the first one at threshold \<open>0.7\<close> returns
  nothing, where the claim requires the second document. At threshold 0 the same query
  returns the second document: it is a candidate of the index, and it is the placeholder
  similarity \<open>0.0\<close> of \<^verbatim>\<open>LSH.FindSimilar\<close> that drops it, before
  \<^verbatim>\<open>DocumentSet.FindSimilar\<close> compares the stored signatures.
\<close>

theorem FindSimilar_misses_identical_document:
  "similar_to_first demo_hash32 4 2
     [''database connection timeout'', ''connection timeout failed'']
     [''database connection timeout'', ''connection timeout failed''] (7 / 10) = Inr [] \<and>
   similar_to_first demo_hash32 4 2
     [''database connection timeout'', ''connection timeout failed'']
     [''database connection timeout'', ''connection timeout failed''] 0 = Inr [''second.txt'']"
  by code_simp

end
